theory Spec2Isabelle
  imports Complex_Main
begin

section \<open>Strings and key resolution\<close>

text \<open>
  JavaScript strings are modelled as \<^typ>\<open>string\<close>. \<open>s.split(c)\<close> for a one-character
  separator never returns the empty array: the empty string splits into one empty segment.
\<close>

fun split_on :: "char \<Rightarrow> string \<Rightarrow> string list" where
  "split_on c [] = [[]]"
| "split_on c (x # xs) =
     (if x = c then [] # split_on c xs
      else (case split_on c xs of
              [] \<Rightarrow> [[x]]
            | y # ys \<Rightarrow> (x # y) # ys))"

text \<open>\<open>s.includes(c)\<close> for a one-character needle.\<close>

definition includes_str :: "string \<Rightarrow> char \<Rightarrow> bool" where
  "includes_str s c = (c \<in> set s)"

text \<open>Decimal rendering of a non-negative integer, as a template literal prints it.\<close>

fun show_nat :: "nat \<Rightarrow> string" where
  "show_nat n =
     (if n < 10 then [''0123456789'' ! n]
      else show_nat (n div 10) @ [''0123456789'' ! (n mod 10)])"

declare show_nat.simps [simp del]

text \<open>
  \<open>getCacheFilename\<close>; the reading of \<open>Date.now()\<close> is the parameter \<open>now\<close>.
\<close>

definition getCacheFilename :: "nat \<Rightarrow> string \<Rightarrow> string" where
  "getCacheFilename now url =
     (let urlParts = split_on CHR ''/'' url;
          filename = last urlParts;
          timestamp = now
      in if \<not> includes_str filename CHR ''.'' then ''video_'' @ show_nat timestamp @ ''.mp4''
         else if includes_str filename CHR ''?'' then hd (split_on CHR ''?'' filename)
         else filename)"

text \<open>
  Key resolution as the specification words it: final segment, query string stripped,
  and only then the test for an extension separator.
\<close>

definition resolve_spec :: "nat \<Rightarrow> string \<Rightarrow> string" where
  "resolve_spec now url =
     (let segment = last (split_on CHR ''/'' url);
          stripped = hd (split_on CHR ''?'' segment)
      in if \<not> includes_str stripped CHR ''.'' then ''video_'' @ show_nat now @ ''.mp4''
         else stripped)"


section \<open>Thrown values and JavaScript numbers\<close>

text \<open>
  A rejected promise carries any value: an \<open>Error\<close> object with its message, or
  something else (\<open>err instanceof Error\<close> is false for it).
\<close>

datatype thrown = Error string | NonError

text \<open>
  JavaScript numbers are IEEE 754 doubles. A finite number is modelled by the rational it
  denotes, and an operation whose exact result need not be a double rounds it to the
  nearest double, a tie going to the even significand (\<open>toDouble\<close>). Results beyond
  the largest double do not arise in the hook and are not modelled.
\<close>

text \<open>The number of binary digits of a natural number.\<close>

fun bitlen_nat :: "nat \<Rightarrow> nat" where
  "bitlen_nat n = (if n = 0 then 0 else Suc (bitlen_nat (n div 2)))"

declare bitlen_nat.simps [simp del]

definition pow2 :: "int \<Rightarrow> rat" where
  "pow2 e = (if 0 \<le> e then 2 ^ nat e else 1 / 2 ^ nat (- e))"

text \<open>For positive \<open>x\<close>, the exponent \<open>e\<close> with \<open>2^e \<le> x < 2^(e+1)\<close>.\<close>

definition binade :: "rat \<Rightarrow> int" where
  "binade x =
     (if 1 \<le> x then int (bitlen_nat (nat \<lfloor>x\<rfloor>)) - 1
      else - int (bitlen_nat (nat (\<lceil>1 / x\<rceil> - 1))))"

definition roundTiesToEven :: "rat \<Rightarrow> int" where
  "roundTiesToEven t =
     (let f = \<lfloor>t\<rfloor>
      in if t - of_int f < 1 / 2 then f
         else if 1 / 2 < t - of_int f then f + 1
         else if even f then f else f + 1)"

text \<open>
  The nearest double: 53 significant bits, and below \<open>2^-1022\<close> the fixed spacing
  \<open>2^-1074\<close> of the subnormal numbers.
\<close>

definition toDouble :: "rat \<Rightarrow> rat" where
  "toDouble x =
     (if x = 0 then 0
      else (let quantum = pow2 (max (binade \<bar>x\<bar>) (- 1022) - 52)
            in sgn x * of_int (roundTiesToEven (\<bar>x\<bar> / quantum)) * quantum))"

text \<open>The product \<open>x * y\<close> of two finite numbers.\<close>

definition js_mul :: "rat \<Rightarrow> rat \<Rightarrow> rat" where
  "js_mul x y = toDouble (x * y)"

text \<open>
  The progress value can also be \<open>NaN\<close> or an infinity: division by zero gives them as
  in IEEE arithmetic.
\<close>

datatype jsnum = Fin rat | NaN | PosInf | NegInf

definition js_div :: "int \<Rightarrow> int \<Rightarrow> jsnum" where
  "js_div a b =
     (if b = 0 then (if a = 0 then NaN else if 0 < a then PosInf else NegInf)
      else Fin (toDouble (of_int a / of_int b)))"

definition js_times :: "jsnum \<Rightarrow> rat \<Rightarrow> jsnum" where
  \<comment> \<open>multiplication by a positive finite constant\<close>
  "js_times x k = (case x of Fin r \<Rightarrow> Fin (js_mul r k) | NaN \<Rightarrow> NaN | PosInf \<Rightarrow> PosInf | NegInf \<Rightarrow> NegInf)"

definition Math_round :: "jsnum \<Rightarrow> jsnum" where
  \<comment> \<open>\<open>Math.round\<close>: the nearest integer, a tie going up\<close>
  "Math_round x = (case x of Fin r \<Rightarrow> Fin (of_int \<lfloor>r + 1 / 2\<rfloor>) | NaN \<Rightarrow> NaN | PosInf \<Rightarrow> PosInf | NegInf \<Rightarrow> NegInf)"

section \<open>The storage gateway\<close>

text \<open>
  The hook reaches the file system and the network only through \<open>expo-file-system\<close>,
  whose code is not part of the repository. Its calls are modelled from the contract the
  specification gives for the storage gateway (section 6).
\<close>

text \<open>
  Modelled from the spec: the result of \<open>stat(path)\<close>,
  \<open>{exists, isDirectory, size?, mtime?}\<close>. \<open>FileSystem.getInfoAsync\<close> resolves to
  an object with \<open>exists\<close> and \<open>isDirectory\<close>, and with \<open>size\<close> and
  \<open>modificationTime\<close> when it reports them (the code tests \<open>'size' in file\<close> and
  \<open>'modificationTime' in file\<close>). Sizes are byte counts.
\<close>

record FileInfo =
  exists_f :: bool
  isDirectory :: bool
  size_f :: "nat option"
  modificationTime :: "rat option"

definition notExisting :: FileInfo where
  "notExisting = \<lparr>exists_f = False, isDirectory = False, size_f = None, modificationTime = None\<rparr>"

definition directoryInfo :: FileInfo where
  "directoryInfo = \<lparr>exists_f = True, isDirectory = True, size_f = None, modificationTime = None\<rparr>"

text \<open>The calls the hook makes; a storage state says which of them throw.\<close>

datatype fsop =
    GetInfo string
  | ReadDirectory string
  | MakeDirectory string
  | Delete string

text \<open>
  Modelled from the spec: \<open>downloadResumable(url, destPath, onProgress)\<close>, which
  reports progress, produces a result path and fails on a transport fault.
  What one \<open>downloadResumable.downloadAsync()\<close> does: the progress callbacks it makes
  (\<open>totalBytesWritten\<close>, \<open>totalBytesExpectedToWrite\<close>), what it leaves at the
  destination path, and how its promise settles (rejected, or resolved to a result with a
  \<open>uri\<close>, or to \<open>undefined\<close>).
\<close>

record DownloadOutcome =
  progressEvents :: "(int \<times> int) list"
  written :: "FileInfo option"
  settled :: "thrown + string option"

text \<open>
  Modelled from the spec: the state behind the gateway. \<open>stat\<close> answers
  \<open>getInfoAsync\<close>, \<open>children\<close> answers \<open>readDirectoryAsync\<close> (\<open>None\<close>: not a
  directory), \<open>faults\<close> names the calls that throw and what they throw,
  \<open>transport\<close> says how each download goes, and \<open>transportLog\<close> records the
  transfers started, as pairs of url and destination path.
\<close>

record Storage =
  stat :: "string \<Rightarrow> FileInfo"
  children :: "string \<Rightarrow> string list option"
  faults :: "fsop \<Rightarrow> thrown option"
  transport :: "string \<Rightarrow> string \<Rightarrow> DownloadOutcome"
  transportLog :: "(string \<times> string) list"

text \<open>Modelled from the spec: \<open>stat(path)\<close>.\<close>

definition getInfoAsync :: "Storage \<Rightarrow> string \<Rightarrow> thrown + FileInfo" where
  "getInfoAsync st p =
     (case faults st (GetInfo p) of
        Some e \<Rightarrow> Inl e
      | None \<Rightarrow> Inr (stat st p))"

text \<open>Modelled from the spec: \<open>listDirectory(path)\<close>, the names in a directory.\<close>

definition readDirectoryAsync :: "Storage \<Rightarrow> string \<Rightarrow> thrown + string list" where
  "readDirectoryAsync st d =
     (case faults st (ReadDirectory d) of
        Some e \<Rightarrow> Inl e
      | None \<Rightarrow>
          (case children st d of
             None \<Rightarrow> Inl (Error ''Directory could not be read'')
           | Some names \<Rightarrow> Inr names))"

text \<open>Modelled from the spec: \<open>makeDirectory(path, recursive)\<close>.\<close>

definition makeDirectoryAsync :: "Storage \<Rightarrow> string \<Rightarrow> thrown + Storage" where
  \<comment> \<open>called with \<open>intermediates: true\<close>: an existing directory is no error\<close>
  "makeDirectoryAsync st d =
     (case faults st (MakeDirectory d) of
        Some e \<Rightarrow> Inl e
      | None \<Rightarrow>
          Inr (if exists_f (stat st d) then st
               else st\<lparr>stat := (stat st)(d := directoryInfo),
                       children := (children st)(d := Some [])\<rparr>))"

text \<open>Modelled from the spec: \<open>delete(path)\<close>.\<close>

definition deleteAsync :: "Storage \<Rightarrow> string \<Rightarrow> thrown + Storage" where
  \<comment> \<open>called without \<open>idempotent\<close>: deleting what does not exist throws\<close>
  "deleteAsync st p =
     (case faults st (Delete p) of
        Some e \<Rightarrow> Inl e
      | None \<Rightarrow>
          if \<not> exists_f (stat st p) then Inl (Error ''File could not be deleted'')
          else Inr (st\<lparr>stat := (stat st)(p := notExisting),
                        children := (\<lambda>d. if d = p then None
                                          else map_option (filter (\<lambda>n. d @ n \<noteq> p)) (children st d))\<rparr>))"


section \<open>Eviction\<close>

text \<open>One element of \<open>fileInfos\<close>: \<open>{ ...info, name: file, path: filePath }\<close>.\<close>

record Entry = FileInfo +
  name :: string
  path :: string

definition fileEntry :: "Storage \<Rightarrow> string \<Rightarrow> string \<Rightarrow> thrown + Entry" where
  "fileEntry st cacheDir file =
     (let filePath = cacheDir @ file
      in case getInfoAsync st filePath of
           Inl e \<Rightarrow> Inl e
         | Inr info \<Rightarrow>
             Inr \<lparr>exists_f = exists_f info, isDirectory = isDirectory info,
                  size_f = size_f info, modificationTime = modificationTime info,
                  name = file, path = filePath\<rparr>)"

text \<open>\<open>Promise.all\<close>: rejected as soon as one element is, else the list of the results.\<close>

fun promiseAll :: "(thrown + 'a) list \<Rightarrow> thrown + 'a list" where
  "promiseAll [] = Inr []"
| "promiseAll (Inl e # ps) = Inl e"
| "promiseAll (Inr x # ps) =
     (case promiseAll ps of
        Inl e \<Rightarrow> Inl e
      | Inr xs \<Rightarrow> Inr (x # xs))"

definition sizeOr0 :: "'a FileInfo_scheme \<Rightarrow> nat" where
  \<comment> \<open>\<open>file.exists && 'size' in file ? file.size : 0\<close>\<close>
  "sizeOr0 file =
     (if exists_f file \<and> size_f file \<noteq> None then the (size_f file) else 0)"

definition timeOr0 :: "'a FileInfo_scheme \<Rightarrow> rat" where
  \<comment> \<open>\<open>a.exists && 'modificationTime' in a ? a.modificationTime : 0\<close>\<close>
  "timeOr0 file =
     (if exists_f file \<and> modificationTime file \<noteq> None then the (modificationTime file) else 0)"

definition MiB :: rat where
  "MiB = 1024 * 1024"

text \<open>Lines 109 to 116: the directory is listed and every name is stat'ed.\<close>

definition fileInfos_of :: "Storage \<Rightarrow> string \<Rightarrow> thrown + Entry list" where
  "fileInfos_of st cacheDir =
     (case readDirectoryAsync st cacheDir of
        Inl e \<Rightarrow> Inl e
      | Inr files \<Rightarrow> promiseAll (map (fileEntry st cacheDir) files))"

definition existingFiles_of :: "Entry list \<Rightarrow> Entry list" where
  "existingFiles_of fileInfos = filter (\<lambda>file. exists_f file \<and> \<not> isDirectory file) fileInfos"

definition totalSize_of :: "Entry list \<Rightarrow> nat" where
  "totalSize_of existingFiles = foldl (\<lambda>sum file. sum + sizeOr0 file) 0 existingFiles"

definition sortedFiles_of :: "Entry list \<Rightarrow> Entry list" where
  \<comment> \<open>\<open>Array.prototype.sort\<close> is stable; the comparator orders by \<open>timeA - timeB\<close>\<close>
  "sortedFiles_of existingFiles =
     sort_key timeOr0
       (filter (\<lambda>file. exists_f file \<and> modificationTime file \<noteq> None) existingFiles)"

text \<open>
  \<open>mergedOptions.maxCacheSize * 0.8\<close>: a double product, in which the literal
  \<open>0.8\<close> is the double nearest to 8/10.
\<close>

definition lowWaterMark :: "rat \<Rightarrow> rat" where
  "lowWaterMark maxCacheSize = js_mul maxCacheSize (toDouble (8 / 10))"

text \<open>
  The \<open>for\<close> loop of lines 136 to 142. A rejected \<open>deleteAsync\<close> leaves the loop;
  what was deleted before stays deleted. The sizes in the loop are computed exactly: a sum of byte counts below
  \<open>2^53\<close>, its quotient by \<open>1024 * 1024\<close> and the differences of such quotients are
  doubles, so no rounding takes place in them.
\<close>

fun evictLoop :: "rat \<Rightarrow> Storage \<Rightarrow> rat \<Rightarrow> Entry list \<Rightarrow> (thrown + unit) \<times> Storage" where
  "evictLoop maxCacheSize st currentSize [] = (Inr (), st)"
| "evictLoop maxCacheSize st currentSize (file # rest) =
     (if currentSize \<le> lowWaterMark maxCacheSize then (Inr (), st)
      else case deleteAsync st (path file) of
             Inl e \<Rightarrow> (Inl e, st)
           | Inr st' \<Rightarrow>
               (let fileSize = sizeOr0 file
                in evictLoop maxCacheSize st' (currentSize - of_nat fileSize / MiB) rest))"

text \<open>The body of the \<open>try\<close> block of \<open>manageCacheSize\<close>.\<close>

definition manageCacheSize_try :: "string \<Rightarrow> rat \<Rightarrow> Storage \<Rightarrow> (thrown + unit) \<times> Storage" where
  "manageCacheSize_try cacheDir maxCacheSize st =
     (case fileInfos_of st cacheDir of
        Inl e \<Rightarrow> (Inl e, st)
      | Inr fileInfos \<Rightarrow>
          (let existingFiles = existingFiles_of fileInfos;
               totalSize = totalSize_of existingFiles;
               totalSizeMB = of_nat totalSize / MiB
           in if totalSizeMB > maxCacheSize
              then (let sortedFiles = sortedFiles_of existingFiles;
                        currentSize = totalSizeMB
                    in evictLoop maxCacheSize st currentSize sortedFiles)
              else (Inr (), st)))"

text \<open>
  \<open>manageCacheSize\<close>: the \<open>catch\<close> clause warns and returns, so the promise resolves
  whatever the \<open>try\<close> block did.
\<close>

definition manageCacheSize :: "string \<Rightarrow> rat \<Rightarrow> Storage \<Rightarrow> (thrown + unit) \<times> Storage" where
  "manageCacheSize cacheDir maxCacheSize st =
     (case manageCacheSize_try cacheDir maxCacheSize st of
        (Inl e, st') \<Rightarrow> (Inr (), st')
      | (Inr u, st') \<Rightarrow> (Inr u, st'))"

text \<open>The size in MiB that a scan of the directory finds, as line 123 computes it.\<close>

definition totalSizeMB_of :: "Storage \<Rightarrow> string \<Rightarrow> thrown + rat" where
  "totalSizeMB_of st cacheDir =
     (case fileInfos_of st cacheDir of
        Inl e \<Rightarrow> Inl e
      | Inr fileInfos \<Rightarrow> Inr (of_nat (totalSize_of (existingFiles_of fileInfos)) / MiB))"

section \<open>Auxiliary notions for the eviction proofs\<close>

definition removePath :: "Storage \<Rightarrow> string \<Rightarrow> Storage" where
  "removePath st p =
     st\<lparr>stat := (stat st)(p := notExisting),
        children := (\<lambda>d. if d = p then None
                          else map_option (filter (\<lambda>n. d @ n \<noteq> p)) (children st d))\<rparr>"

definition sizeMB :: "Entry list \<Rightarrow> rat" where
  "sizeMB files = of_nat (sum_list (map sizeOr0 files)) / MiB"

definition entryOf :: "Storage \<Rightarrow> string \<Rightarrow> string \<Rightarrow> Entry" where
  "entryOf st cacheDir file =
     \<lparr>exists_f = exists_f (stat st (cacheDir @ file)),
      isDirectory = isDirectory (stat st (cacheDir @ file)),
      size_f = size_f (stat st (cacheDir @ file)),
      modificationTime = modificationTime (stat st (cacheDir @ file)),
      name = file, path = cacheDir @ file\<rparr>"

definition scannable :: "Storage \<Rightarrow> string \<Rightarrow> string list \<Rightarrow> bool" where
  "scannable st cacheDir files \<longleftrightarrow>
     children st cacheDir = Some files \<and> distinct files \<and> [] \<notin> set files \<and>
     faults st (ReadDirectory cacheDir) = None \<and>
     (\<forall>n \<in> set files. faults st (GetInfo (cacheDir @ n)) = None)"

definition isFile :: "'a FileInfo_scheme \<Rightarrow> bool" where
  "isFile info \<longleftrightarrow> exists_f info \<and> \<not> isDirectory info"

section \<open>The hook\<close>

text \<open>
  The options after \<open>{ ...DEFAULT_OPTIONS, ...options }\<close>; \<open>maxCacheSize\<close> is in MB.
\<close>

record Options =
  enableCaching :: bool
  cacheDirectory :: string
  maxCacheSize :: rat
  enablePreload :: bool

definition DEFAULT_OPTIONS :: Options where
  "DEFAULT_OPTIONS =
     \<lparr>enableCaching = True, cacheDirectory = ''videos'', maxCacheSize = 500,
      enablePreload = False\<rparr>"

text \<open>\<open>cacheDir\<close>, from \<open>FileSystem.documentDirectory\<close> and the options.\<close>

definition cacheDir_of :: "string \<Rightarrow> Options \<Rightarrow> string" where
  "cacheDir_of documentDirectory mergedOptions =
     documentDirectory @ cacheDirectory mergedOptions @ ''/''"

text \<open>The argument \<open>source\<close> of the hook: \<open>uri\<close> may be \<open>null\<close>, \<open>useCaching\<close> absent.\<close>

record CachedVideoSource =
  source_uri :: "string option"
  source_useCaching :: "bool option"

record VideoSource =
  uri :: string
  useCaching :: "bool option"

text \<open>The five \<open>useState\<close> cells.\<close>

record HookState =
  videoSource :: VideoSource
  isLoading :: bool
  error :: "string option"
  cacheProgress :: jsnum
  isCached :: bool

definition initialState :: HookState where
  "initialState =
     \<lparr>videoSource = \<lparr>uri = '''', useCaching = None\<rparr>, isLoading = False, error = None,
      cacheProgress = Fin 0, isCached = False\<rparr>"

definition getCacheFilePath :: "string \<Rightarrow> nat \<Rightarrow> string \<Rightarrow> string" where
  "getCacheFilePath cacheDir now url = cacheDir @ getCacheFilename now url"

text \<open>\<open>checkIfCached\<close>: whatever is thrown inside is caught, and the answer is \<open>false\<close>.\<close>

definition checkIfCached :: "string \<Rightarrow> nat \<Rightarrow> Storage \<Rightarrow> string \<Rightarrow> thrown + bool" where
  "checkIfCached cacheDir now st url =
     (let filePath = getCacheFilePath cacheDir now url
      in case getInfoAsync st filePath of
           Inl e \<Rightarrow> Inr False
         | Inr fileInfo \<Rightarrow> Inr (exists_f fileInfo))"

text \<open>\<open>ensureCacheDirectory\<close>: the \<open>catch\<close> clause logs and throws the error again.\<close>

definition ensureCacheDirectory :: "string \<Rightarrow> Storage \<Rightarrow> (thrown + unit) \<times> Storage" where
  "ensureCacheDirectory cacheDir st =
     (case getInfoAsync st cacheDir of
        Inl e \<Rightarrow> (Inl e, st)
      | Inr dirInfo \<Rightarrow>
          if \<not> exists_f dirInfo
          then (case makeDirectoryAsync st cacheDir of
                  Inl e \<Rightarrow> (Inl e, st)
                | Inr st' \<Rightarrow> (Inr (), st'))
          else (Inr (), st))"

subsection \<open>The download transport\<close>

text \<open>The directory part and the last component of a path.\<close>

definition parentDir :: "string \<Rightarrow> string" where
  "parentDir p = rev (dropWhile (\<lambda>c. c \<noteq> CHR ''/'') (rev p))"

definition baseName :: "string \<Rightarrow> string" where
  "baseName p = rev (takeWhile (\<lambda>c. c \<noteq> CHR ''/'') (rev p))"

text \<open>
  Modelled from the spec: \<open>downloadResumable\<close>, in two halves.
  \<open>downloadResumable.downloadAsync()\<close> starts the transfer: the call is recorded.
\<close>

definition startTransfer :: "Storage \<Rightarrow> string \<Rightarrow> string \<Rightarrow> Storage" where
  "startTransfer st url filePath = st\<lparr>transportLog := transportLog st @ [(url, filePath)]\<rparr>"

text \<open>
  Modelled from the spec: the transfer ends. What it wrote is at the destination path (and
  in the listing of its directory), and the promise settles.
\<close>

definition writeFile :: "Storage \<Rightarrow> string \<Rightarrow> FileInfo \<Rightarrow> Storage" where
  "writeFile st p info =
     st\<lparr>stat := (stat st)(p := info),
        children := (children st)(parentDir p :=
          map_option (\<lambda>names. if baseName p \<in> set names then names else names @ [baseName p])
            (children st (parentDir p)))\<rparr>"

definition endTransfer ::
  "Storage \<Rightarrow> string \<Rightarrow> string \<Rightarrow> (int \<times> int) list \<times> (thrown + string option) \<times> Storage" where
  "endTransfer st url filePath =
     (let outcome = transport st url filePath
      in (progressEvents outcome, settled outcome,
          (case written outcome of
             None \<Rightarrow> st
           | Some info \<Rightarrow> writeFile st filePath info)))"

definition downloadAsync ::
  "Storage \<Rightarrow> string \<Rightarrow> string \<Rightarrow> (int \<times> int) list \<times> (thrown + string option) \<times> Storage" where
  "downloadAsync st url filePath = endTransfer (startTransfer st url filePath) url filePath"

subsection \<open>\<open>downloadVideo\<close>\<close>

text \<open>The progress callback of lines 173 to 177.\<close>

definition onDownloadProgress :: "int \<times> int \<Rightarrow> HookState \<Rightarrow> HookState" where
  "onDownloadProgress downloadProgress h =
     (case downloadProgress of
        (totalBytesWritten, totalBytesExpectedToWrite) \<Rightarrow>
          (let progress = js_div totalBytesWritten totalBytesExpectedToWrite
           in h\<lparr>cacheProgress := Math_round (js_times progress 100)\<rparr>))"

text \<open>Progress as the specification words it: the rounded percentage, clamped to 0..100.\<close>

definition progress_spec :: "int \<times> int \<Rightarrow> jsnum" where
  "progress_spec downloadProgress =
     (case Math_round (js_times (js_div (fst downloadProgress) (snd downloadProgress)) 100) of
        Fin r \<Rightarrow> Fin (max 0 (min 100 r))
      | NaN \<Rightarrow> NaN
      | PosInf \<Rightarrow> Fin 100
      | NegInf \<Rightarrow> Fin 0)"

text \<open>What \<open>downloadVideo\<close> does before its first \<open>await\<close>.\<close>

definition downloadVideo_begin :: "HookState \<Rightarrow> HookState" where
  "downloadVideo_begin h = h\<lparr>isLoading := True, error := None, cacheProgress := Fin 0\<rparr>"

text \<open>
  The \<open>try\<close> block of \<open>downloadVideo\<close>. \<open>now1\<close> and \<open>now2\<close> are the readings of
  \<open>Date.now()\<close> in \<open>getCacheFilePath(url)\<close> and inside \<open>checkIfCached(url)\<close>.
  \<open>Inr path\<close> is a \<open>return\<close>, \<open>Inl e\<close> a \<open>throw\<close>.
\<close>

definition downloadVideo_try ::
  "string \<Rightarrow> rat \<Rightarrow> nat \<Rightarrow> nat \<Rightarrow> string \<Rightarrow> HookState \<Rightarrow> Storage
     \<Rightarrow> (thrown + string) \<times> HookState \<times> Storage" where
  "downloadVideo_try cacheDir maxSize now1 now2 url h st =
     (let h1 = downloadVideo_begin h
      in case ensureCacheDirectory cacheDir st of
           (Inl e, st1) \<Rightarrow> (Inl e, h1, st1)
         | (Inr u, st1) \<Rightarrow>
             (case manageCacheSize cacheDir maxSize st1 of
                (Inl e, st2) \<Rightarrow> (Inl e, h1, st2)
              | (Inr u, st2) \<Rightarrow>
                  (let filePath = getCacheFilePath cacheDir now1 url
                   in case checkIfCached cacheDir now2 st2 url of
                        Inl e \<Rightarrow> (Inl e, h1, st2)
                      | Inr cached \<Rightarrow>
                          if cached then (Inr filePath, h1\<lparr>isCached := True\<rparr>, st2)
                          else
                            (case downloadAsync st2 url filePath of
                               (events, result, st3) \<Rightarrow>
                                 (let h2 = foldl (\<lambda>h ev. onDownloadProgress ev h) h1 events
                                  in case result of
                                       Inl e \<Rightarrow> (Inl e, h2, st3)
                                     | Inr None \<Rightarrow> (Inl (Error ''Download failed''), h2, st3)
                                     | Inr (Some resultUri) \<Rightarrow>
                                         if resultUri \<noteq> []
                                         then (Inr resultUri,
                                               h2\<lparr>isCached := True, cacheProgress := Fin 100\<rparr>, st3)
                                         else (Inl (Error ''Download failed''), h2, st3))))))"

text \<open>The \<open>catch\<close> clause of \<open>downloadVideo\<close>, and its \<open>finally\<close> clause.\<close>

definition downloadVideo_catch :: "thrown \<Rightarrow> HookState \<Rightarrow> HookState" where
  "downloadVideo_catch err h =
     (let errorMessage = (case err of Error message \<Rightarrow> message | NonError \<Rightarrow> ''Download failed'')
      in h\<lparr>error := Some errorMessage\<rparr>)"

definition downloadVideo_finally :: "HookState \<Rightarrow> HookState" where
  "downloadVideo_finally h = h\<lparr>isLoading := False\<rparr>"

text \<open>
  \<open>downloadVideo\<close>: the promise it returns, the hook state and the storage afterwards.
  \<open>Inr (Some path)\<close> is the promise resolved to a path, \<open>Inr None\<close> resolved to
  \<open>null\<close>, \<open>Inl e\<close> rejected.
\<close>

definition downloadVideo ::
  "string \<Rightarrow> rat \<Rightarrow> nat \<Rightarrow> nat \<Rightarrow> string \<Rightarrow> HookState \<Rightarrow> Storage
     \<Rightarrow> (thrown + string option) \<times> HookState \<times> Storage" where
  "downloadVideo cacheDir maxSize now1 now2 url h st =
     (case downloadVideo_try cacheDir maxSize now1 now2 url h st of
        (Inr filePath, h', st') \<Rightarrow> (Inr (Some filePath), downloadVideo_finally h', st')
      | (Inl err, h', st') \<Rightarrow>
          (Inr None, downloadVideo_finally (downloadVideo_catch err h'), st'))"

definition preloadVideo ::
  "string \<Rightarrow> Options \<Rightarrow> nat \<Rightarrow> nat \<Rightarrow> string \<Rightarrow> HookState \<Rightarrow> Storage
     \<Rightarrow> (thrown + string option) \<times> HookState \<times> Storage" where
  "preloadVideo documentDirectory mergedOptions now1 now2 url h st =
     (if \<not> enableCaching mergedOptions then (Inr None, h, st)
      else downloadVideo (cacheDir_of documentDirectory mergedOptions)
             (maxCacheSize mergedOptions) now1 now2 url h st)"

subsection \<open>The main effect\<close>

text \<open>
  \<open>handleVideoSource\<close>, up to its own completion. The call \<open>downloadVideo(source.uri)\<close>
  is not awaited: it runs to its first \<open>await\<close> and stays pending, so the result is the
  hook state together with the urls of the downloads left running. \<open>now1\<close> and
  \<open>now2\<close> are the readings of \<open>Date.now()\<close> inside \<open>checkIfCached\<close> and in
  \<open>getCacheFilePath\<close>.
\<close>

definition handleVideoSource ::
  "string \<Rightarrow> Options \<Rightarrow> CachedVideoSource \<Rightarrow> nat \<Rightarrow> nat \<Rightarrow> HookState \<Rightarrow> Storage
     \<Rightarrow> HookState \<times> string list" where
  "handleVideoSource documentDirectory mergedOptions source now1 now2 h st =
     (case source_uri source of
        None \<Rightarrow> (h\<lparr>videoSource := \<lparr>uri = '''', useCaching = None\<rparr>\<rparr>, [])
      | Some sourceUri \<Rightarrow>
          if sourceUri = [] then (h\<lparr>videoSource := \<lparr>uri = '''', useCaching = None\<rparr>\<rparr>, [])
          else if \<not> enableCaching mergedOptions \<or> source_useCaching source = Some False
          then (h\<lparr>videoSource := \<lparr>uri = sourceUri, useCaching = Some False\<rparr>\<rparr>, [])
          else
            (let cacheDir = cacheDir_of documentDirectory mergedOptions;
                 h1 = h\<lparr>isLoading := True, error := None\<rparr>
             in case checkIfCached cacheDir now1 st sourceUri of
                  Inr True \<Rightarrow>
                    (let cachedPath = getCacheFilePath cacheDir now2 sourceUri
                     in (h1\<lparr>videoSource := \<lparr>uri = cachedPath, useCaching = Some False\<rparr>,
                            isCached := True, isLoading := False\<rparr>, []))
                | Inr False \<Rightarrow>
                    (let h2 = h1\<lparr>videoSource := \<lparr>uri = sourceUri, useCaching = Some False\<rparr>,
                                 isCached := False\<rparr>
                     in if enablePreload mergedOptions
                        then ((downloadVideo_begin h2)\<lparr>isLoading := False\<rparr>, [sourceUri])
                        else (h2\<lparr>isLoading := False\<rparr>, []))
                | Inl err \<Rightarrow>
                    (let errorMessage = (case err of Error message \<Rightarrow> message
                                          | NonError \<Rightarrow> ''Unknown error'')
                     in (h1\<lparr>error := Some errorMessage,
                            videoSource := \<lparr>uri = sourceUri, useCaching = Some False\<rparr>,
                            isLoading := False\<rparr>, []))))"

section \<open>Concurrent calls of \<open>downloadVideo\<close>\<close>

text \<open>
  Several calls of \<open>downloadVideo\<close> of one hook instance run interleaved: control passes
  from one call to another at an \<open>await\<close>. A call is followed through four steps:
  from its start to the end of the pre-flight (\<open>ensureCacheDirectory\<close>,
  \<open>manageCacheSize\<close>); the existence check inside \<open>await checkIfCached(url)\<close>;
  the continuation after that \<open>await\<close>, which returns the cached path or creates the
  resumable download and calls \<open>downloadAsync\<close>; and the end of the transfer. Between
  two steps of one call any steps of the other calls may run.
\<close>

datatype pc =
    Start
  | Checking
  | Checked bool
  | Downloading string
  | Finished "string option"

record Call =
  call_url :: string
  call_now1 :: nat
  call_now2 :: nat
  call_pc :: pc

definition stepCall ::
  "string \<Rightarrow> rat \<Rightarrow> Call \<Rightarrow> HookState \<Rightarrow> Storage \<Rightarrow> Call \<times> HookState \<times> Storage" where
  "stepCall cacheDir maxSize c h st =
     (case call_pc c of
        Start \<Rightarrow>
          (let h1 = downloadVideo_begin h
           in case ensureCacheDirectory cacheDir st of
                (Inl e, st1) \<Rightarrow>
                  (c\<lparr>call_pc := Finished None\<rparr>,
                   downloadVideo_finally (downloadVideo_catch e h1), st1)
              | (Inr u, st1) \<Rightarrow>
                  (case manageCacheSize cacheDir maxSize st1 of
                     (Inl e, st2) \<Rightarrow>
                       (c\<lparr>call_pc := Finished None\<rparr>,
                        downloadVideo_finally (downloadVideo_catch e h1), st2)
                   | (Inr u, st2) \<Rightarrow> (c\<lparr>call_pc := Checking\<rparr>, h1, st2)))
      | Checking \<Rightarrow>
          (case checkIfCached cacheDir (call_now2 c) st (call_url c) of
             Inl e \<Rightarrow>
               (c\<lparr>call_pc := Finished None\<rparr>,
                downloadVideo_finally (downloadVideo_catch e h), st)
           | Inr cached \<Rightarrow> (c\<lparr>call_pc := Checked cached\<rparr>, h, st))
      | Checked cached \<Rightarrow>
          (let filePath = getCacheFilePath cacheDir (call_now1 c) (call_url c)
           in if cached
              then (c\<lparr>call_pc := Finished (Some filePath)\<rparr>,
                    downloadVideo_finally (h\<lparr>isCached := True\<rparr>), st)
              else (c\<lparr>call_pc := Downloading filePath\<rparr>, h,
                    startTransfer st (call_url c) filePath))
      | Downloading filePath \<Rightarrow>
          (case endTransfer st (call_url c) filePath of
             (events, result, st3) \<Rightarrow>
               (let h2 = foldl (\<lambda>h ev. onDownloadProgress ev h) h events
                in case result of
                     Inl e \<Rightarrow>
                       (c\<lparr>call_pc := Finished None\<rparr>,
                        downloadVideo_finally (downloadVideo_catch e h2), st3)
                   | Inr None \<Rightarrow>
                       (c\<lparr>call_pc := Finished None\<rparr>,
                        downloadVideo_finally
                          (downloadVideo_catch (Error ''Download failed'') h2), st3)
                   | Inr (Some resultUri) \<Rightarrow>
                       if resultUri \<noteq> []
                       then (c\<lparr>call_pc := Finished (Some resultUri)\<rparr>,
                             downloadVideo_finally
                               (h2\<lparr>isCached := True, cacheProgress := Fin 100\<rparr>), st3)
                       else (c\<lparr>call_pc := Finished None\<rparr>,
                             downloadVideo_finally
                               (downloadVideo_catch (Error ''Download failed'') h2), st3)))
      | Finished r \<Rightarrow> (c, h, st))"

record System =
  hook :: HookState
  storage :: Storage
  calls :: "Call list"

text \<open>The call at position \<open>i\<close> makes its next step.\<close>

definition step :: "string \<Rightarrow> rat \<Rightarrow> System \<Rightarrow> nat \<Rightarrow> System" where
  "step cacheDir maxSize sys i =
     (if i < length (calls sys)
      then (case stepCall cacheDir maxSize (calls sys ! i) (hook sys) (storage sys) of
              (c', h', st') \<Rightarrow> \<lparr>hook = h', storage = st', calls = (calls sys)[i := c']\<rparr>)
      else sys)"

text \<open>A schedule names the call that makes each successive step.\<close>

definition run :: "string \<Rightarrow> rat \<Rightarrow> nat list \<Rightarrow> System \<Rightarrow> System" where
  "run cacheDir maxSize schedule sys = foldl (step cacheDir maxSize) sys schedule"




section \<open>Example storage states\<close>

definition regularFile :: "nat \<Rightarrow> rat \<Rightarrow> FileInfo" where
  "regularFile bytes mtime =
     \<lparr>exists_f = True, isDirectory = False, size_f = Some bytes, modificationTime = Some mtime\<rparr>"

definition idleTransport :: "string \<Rightarrow> string \<Rightarrow> DownloadOutcome" where
  "idleTransport url dest = \<lparr>progressEvents = [], written = None, settled = Inr None\<rparr>"

definition fiveFiles :: Storage where
  "fiveFiles =
     \<lparr>stat = (\<lambda>p. if p = ''d/f1'' then regularFile 31457280 1
                 else if p = ''d/f2'' then regularFile 31457280 2
                 else if p = ''d/f3'' then regularFile 31457280 3
                 else if p = ''d/f4'' then regularFile 31457280 4
                 else if p = ''d/f5'' then regularFile 31457280 5
                 else if p = ''d/'' then directoryInfo
                 else notExisting),
      children = (\<lambda>d. if d = ''d/'' then Some [''f3'', ''f1'', ''f5'', ''f2'', ''f4''] else None),
      faults = (\<lambda>call. None),
      transport = idleTransport,
      transportLog = []\<rparr>"

definition fiveMtime :: "string \<Rightarrow> rat" where
  "fiveMtime n = (if n = ''f1'' then 1 else if n = ''f2'' then 2 else if n = ''f3'' then 3
                  else if n = ''f4'' then 4 else 5)"

definition stuckFile :: Storage where
  "stuckFile =
     \<lparr>stat = (\<lambda>p. if p = ''d/a'' then regularFile 1048576 1
                 else if p = ''d/b'' then regularFile 1048576 2
                 else if p = ''d/c'' then regularFile 1048576 3
                 else if p = ''d/'' then directoryInfo
                 else notExisting),
      children = (\<lambda>d. if d = ''d/'' then Some [''a'', ''b'', ''c''] else None),
      faults = (\<lambda>call. if call = Delete ''d/b'' then Some (Error ''EBUSY'') else None),
      transport = idleTransport,
      transportLog = []\<rparr>"




text \<open>
  An existing, empty cache directory \<open>doc/videos/\<close> and a transport that fails after
  1000 of 4000 bytes, leaving the bytes it wrote at the destination path.
\<close>

definition failingTransport :: "string \<Rightarrow> string \<Rightarrow> DownloadOutcome" where
  "failingTransport url dest =
     \<lparr>progressEvents = [(1000, 4000)],
      written = Some (regularFile 1000 7),
      settled = Inl (Error ''Network request failed'')\<rparr>"

definition emptyCache :: "(string \<Rightarrow> string \<Rightarrow> DownloadOutcome) \<Rightarrow> Storage" where
  "emptyCache tr =
     \<lparr>stat = (\<lambda>p. if p = ''doc/videos/'' then directoryInfo else notExisting),
      children = (\<lambda>d. if d = ''doc/videos/'' then Some [] else None),
      faults = (\<lambda>call. None),
      transport = tr,
      transportLog = []\<rparr>"

text \<open>A transport that writes the whole file and resolves to its path.\<close>

definition workingTransport :: "string \<Rightarrow> string \<Rightarrow> DownloadOutcome" where
  "workingTransport url dest =
     \<lparr>progressEvents = [(4000, 4000)],
      written = Some (regularFile 4000 7),
      settled = Inr (Some dest)\<rparr>"


section \<open>Properties of key resolution\<close>

lemma split_on_not_Nil: "split_on c s \<noteq> []"
  by (induction s) (auto split: list.splits)

lemma split_on_without_separator: "c \<notin> set s \<Longrightarrow> split_on c s = [s]"
  by (induction s) auto

lemma hd_split_on_subset: "set (hd (split_on c s)) \<subseteq> set s"
  by (induction s) (auto split: list.splits)

text \<open>
  A \<open>.\<close> in the final segment with its query string stripped is a \<open>.\<close> in the final
  segment itself.
\<close>

lemma includes_stripped_segment:
  "includes_str (hd (split_on CHR ''?'' segment)) c \<Longrightarrow> includes_str segment c"
  using hd_split_on_subset[of "CHR ''?''" segment] by (auto simp: includes_str_def)

text \<open>
  The code and the specification's wording agree except when the only \<open>.\<close> of the final
  segment is inside its query string.
\<close>

lemma getCacheFilename_eq_resolve_spec:
  assumes "includes_str (last (split_on CHR ''/'' url)) CHR ''.'' \<longrightarrow>
           includes_str (hd (split_on CHR ''?'' (last (split_on CHR ''/'' url)))) CHR ''.''"
  shows "getCacheFilename now url = resolve_spec now url"
proof -
  let ?seg = "last (split_on CHR ''/'' url)"
  show ?thesis
  proof (cases "includes_str ?seg CHR ''.''")
    case True
    with assms have "includes_str (hd (split_on CHR ''?'' ?seg)) CHR ''.''" by simp
    with True show ?thesis
      by (auto simp: getCacheFilename_def resolve_spec_def Let_def includes_str_def
          split_on_without_separator)
  next
    case False
    then have "\<not> includes_str (hd (split_on CHR ''?'' ?seg)) CHR ''.''"
      using includes_stripped_segment by blast
    with False show ?thesis
      by (simp add: getCacheFilename_def resolve_spec_def Let_def)
  qed
qed

section \<open>Evaluating the rounding\<close>

lemma floor_rat_numeral_div:
  "\<lfloor>numeral a / numeral b :: rat\<rfloor> = numeral a div numeral b"
  using floor_divide_of_int_eq[of "numeral a" "numeral b", where ?'a = rat] by simp

lemma ceiling_rat_numeral_div:
  "\<lceil>numeral a / numeral b :: rat\<rceil> = - (- numeral a div numeral b)"
  using ceiling_divide_eq_div[of "numeral a" "numeral b", where ?'a = rat] by simp

lemmas double_eval_defs = toDouble_def binade_def pow2_def roundTiesToEven_def Let_def
  bitlen_nat.simps floor_rat_numeral_div ceiling_rat_numeral_div

text \<open>The literal \<open>0.8\<close>, and the low-water marks of the ceilings used below.\<close>

lemma literal_0_8: "toDouble (8 / 10) = 3602879701896397 / 4503599627370496"
  by (simp add: double_eval_defs)

lemma low_water_100: "lowWaterMark 100 = 80"
  by (simp add: lowWaterMark_def js_mul_def literal_0_8) (simp add: double_eval_defs)

lemma low_water_1: "lowWaterMark 1 = 3602879701896397 / 4503599627370496"
  by (simp add: lowWaterMark_def js_mul_def literal_0_8) (simp add: double_eval_defs)




text \<open>
  Rounding keeps a number between 0 and an integer bound: the bound is itself a
  multiple of the spacing.
\<close>

lemma bitlen_nat_le: "n < 2 ^ k \<Longrightarrow> bitlen_nat n \<le> k"
proof (induction k arbitrary: n)
  case 0
  then show ?case by (simp add: bitlen_nat.simps)
next
  case (Suc k)
  show ?case
  proof (cases "n = 0")
    case True
    then show ?thesis by (simp add: bitlen_nat.simps)
  next
    case False
    from Suc.prems have "n div 2 < 2 ^ k" by simp
    then have "bitlen_nat (n div 2) \<le> k" by (rule Suc.IH)
    with False show ?thesis by (subst bitlen_nat.simps) simp
  qed
qed

lemma binade_le_6: 
  assumes "0 < x" and "x \<le> 100"
  shows "binade x \<le> 6"
proof (cases "1 \<le> x")
  case True
  have "\<lfloor>x\<rfloor> \<le> \<lfloor>100 :: rat\<rfloor>" using assms(2) by (rule floor_mono)
  then have "\<lfloor>x\<rfloor> \<le> 100" by simp
  then have "nat \<lfloor>x\<rfloor> < 128" by linarith
  then have "nat \<lfloor>x\<rfloor> < 2 ^ 7" by simp
  then have "bitlen_nat (nat \<lfloor>x\<rfloor>) \<le> 7" by (rule bitlen_nat_le)
  with True show ?thesis by (simp add: binade_def)
next
  case False
  then show ?thesis by (simp add: binade_def)
qed

lemma roundTiesToEven_le:
  assumes "t \<le> of_int M"
  shows "roundTiesToEven t \<le> M"
proof -
  have f: "\<lfloor>t\<rfloor> \<le> M" using assms by (simp add: floor_le_iff)
  show ?thesis
  proof (cases "\<lfloor>t\<rfloor> = M")
    case True
    then have "t - of_int \<lfloor>t\<rfloor> \<le> 0" using assms by simp
    then show ?thesis using True by (simp add: roundTiesToEven_def Let_def)
  next
    case False
    with f have "\<lfloor>t\<rfloor> + 1 \<le> M" by simp
    with f show ?thesis by (simp add: roundTiesToEven_def Let_def)
  qed
qed

lemma roundTiesToEven_nonneg: "0 \<le> t \<Longrightarrow> 0 \<le> roundTiesToEven t"
  by (simp add: roundTiesToEven_def Let_def)

lemma pow2_pos: "0 < pow2 e"
  by (simp add: pow2_def)

lemma toDouble_nonneg:
  assumes "0 \<le> x"
  shows "0 \<le> toDouble x"
proof (cases "x = 0")
  case True
  then show ?thesis by (simp add: toDouble_def)
next
  case False
  define q where "q = pow2 (max (binade \<bar>x\<bar>) (- 1022) - 52)"
  have "0 < q" by (simp add: q_def pow2_pos)
  then have "0 \<le> \<bar>x\<bar> / q" by simp
  then have "0 \<le> roundTiesToEven (\<bar>x\<bar> / q)" by (rule roundTiesToEven_nonneg)
  then have "0 \<le> (of_int (roundTiesToEven (\<bar>x\<bar> / q)) :: rat) * q"
    using \<open>0 < q\<close> by simp
  with assms False show ?thesis
    by (simp add: toDouble_def Let_def q_def)
qed

lemma toDouble_le:
  assumes "0 \<le> x" and "x \<le> of_int N" and "x \<le> 100"
  shows "toDouble x \<le> of_int N"
proof (cases "x = 0")
  case True
  with assms show ?thesis by (simp add: toDouble_def)
next
  case False
  with assms have pos: "0 < x" by simp
  define e where "e = max (binade \<bar>x\<bar>) (- 1022) - 52"
  have "binade \<bar>x\<bar> \<le> 6" using pos assms by (simp add: binade_le_6)
  then have e: "e < 0" by (simp add: e_def)
  define n where "n = nat (- e)"
  have q: "pow2 e = 1 / 2 ^ n" using e by (simp add: pow2_def n_def)
  have "\<bar>x\<bar> / pow2 e \<le> of_int (N * 2 ^ n)"
    using assms pos by (simp add: q)
  then have "roundTiesToEven (\<bar>x\<bar> / pow2 e) \<le> N * 2 ^ n"
    by (rule roundTiesToEven_le)
  then have "(of_int (roundTiesToEven (\<bar>x\<bar> / pow2 e)) :: rat) \<le> of_int (N * 2 ^ n)"
    by (simp only: of_int_le_iff)
  then have "(of_int (roundTiesToEven (\<bar>x\<bar> / pow2 e)) :: rat) * pow2 e \<le> of_int N"
    by (simp add: q field_simps)
  with pos False show ?thesis
    by (simp add: toDouble_def Let_def e_def)
qed

text \<open>
  The rounding is to a nearest multiple of the spacing: \<open>binade\<close> is the exponent of
  its argument, and the result differs from the argument by at most half the spacing at
  that exponent.
\<close>

lemma bitlen_nat_bounds:
  "0 < n \<Longrightarrow> 2 ^ (bitlen_nat n - 1) \<le> n \<and> n < 2 ^ bitlen_nat n"
proof (induction n rule: bitlen_nat.induct)
  case (1 n)
  show ?case
  proof (cases "n div 2 = 0")
    case True
    with 1 have "n = 1" by (cases n) auto
    then show ?thesis by (simp add: bitlen_nat.simps)
  next
    case False
    with 1 have IH: "2 ^ (bitlen_nat (n div 2) - 1) \<le> n div 2" "n div 2 < 2 ^ bitlen_nat (n div 2)"
      by simp_all
    have pos: "0 < bitlen_nat (n div 2)" using False by (subst bitlen_nat.simps) simp
    have b: "bitlen_nat n = Suc (bitlen_nat (n div 2))"
      using 1(2) by (subst bitlen_nat.simps) simp
    have "2 ^ (bitlen_nat n - 1) = 2 * 2 ^ (bitlen_nat (n div 2) - 1)"
      using pos by (cases "bitlen_nat (n div 2)") (simp_all add: b)
    also have "\<dots> \<le> 2 * (n div 2)" using IH(1) by simp
    also have "\<dots> \<le> n" by simp
    finally have lo: "2 ^ (bitlen_nat n - 1) \<le> n" .
    have "n < 2 * (n div 2) + 2" by linarith
    also have "\<dots> \<le> 2 * 2 ^ bitlen_nat (n div 2)" using IH(2) by simp
    finally have "n < 2 ^ bitlen_nat n" by (simp add: b)
    with lo show ?thesis by simp
  qed
qed

lemma binade_bounds:
  assumes "0 < x"
  shows "pow2 (binade x) \<le> x \<and> x < pow2 (binade x + 1)"
proof (cases "1 \<le> x")
  case True
  define n where "n = nat \<lfloor>x\<rfloor>"
  have f: "1 \<le> \<lfloor>x\<rfloor>" using True by (simp add: le_floor_iff)
  have fl: "of_int \<lfloor>x\<rfloor> \<le> x" "x < of_int \<lfloor>x\<rfloor> + 1" by linarith+
  have "(of_nat n :: rat) = of_int \<lfloor>x\<rfloor>" using f by (simp add: n_def)
  with f fl have n: "0 < n" "of_nat n \<le> x" "x < of_nat n + 1"
    by (simp_all add: n_def)
  note b = bitlen_nat_bounds[OF n(1)]
  have pos: "0 < bitlen_nat n" using n(1) by (subst bitlen_nat.simps) simp
  have e: "binade x = int (bitlen_nat n) - 1" using True by (simp add: binade_def n_def)
  have p1: "pow2 (binade x) = 2 ^ (bitlen_nat n - 1)"
    using pos by (simp add: e pow2_def nat_diff_distrib')
  have p2: "pow2 (binade x + 1) = 2 ^ bitlen_nat n"
    by (simp add: e pow2_def)
  have "(2 :: rat) ^ (bitlen_nat n - 1) \<le> of_nat n"
    using b[THEN conjunct1] by (metis of_nat_le_iff of_nat_numeral of_nat_power)
  then have lo: "pow2 (binade x) \<le> x" unfolding p1 using n(2) by (rule order_trans)
  have "n + 1 \<le> 2 ^ bitlen_nat n" using b[THEN conjunct2] by simp
  then have "(of_nat (n + 1) :: rat) \<le> of_nat (2 ^ bitlen_nat n)"
    by (simp only: of_nat_le_iff)
  then have "(of_nat n :: rat) + 1 \<le> 2 ^ bitlen_nat n" by simp
  with n(3) have "x < pow2 (binade x + 1)" by (simp add: p2)
  with lo show ?thesis by simp
next
  case False
  then have x1: "x < 1" by simp
  define m where "m = nat (\<lceil>1 / x\<rceil> - 1)"
  have "1 < 1 / x" using assms x1 by simp
  then have c: "2 \<le> \<lceil>1 / x\<rceil>" by linarith
  define z where "z = \<lceil>1 / x\<rceil>"
  have m_z: "m = nat (z - 1)" by (simp add: m_def z_def)
  from c have z: "2 \<le> z" by (simp add: z_def)
  then have m: "0 < m" by (simp add: m_z)
  have "int m = z - 1" using z by (simp add: m_z)
  then have mi: "int m = \<lceil>1 / x\<rceil> - 1" by (simp only: z_def)
  have lt: "(of_nat m :: rat) < 1 / x"
  proof -
    have "(of_int (\<lceil>1 / x\<rceil> - 1) :: rat) < 1 / x" by linarith
    then show ?thesis by (simp only: mi[symmetric] of_int_of_nat_eq)
  qed
  have le: "1 / x \<le> (of_nat m :: rat) + 1"
  proof -
    have "1 / x \<le> (of_int \<lceil>1 / x\<rceil> :: rat)" by (rule le_of_int_ceiling)
    also have "\<dots> = of_int (int m) + 1" by (simp add: mi)
    finally show ?thesis by simp
  qed
  note b = bitlen_nat_bounds[OF m]
  have pos: "0 < bitlen_nat m" using m by (subst bitlen_nat.simps) simp
  have e: "binade x = - int (bitlen_nat m)" using False by (simp add: binade_def m_def)
  have p1: "pow2 (binade x) = 1 / 2 ^ bitlen_nat m"
    using pos by (simp add: e pow2_def)
  have p2: "pow2 (binade x + 1) = 1 / 2 ^ (bitlen_nat m - 1)"
  proof (cases "bitlen_nat m = 1")
    case True
    then show ?thesis by (simp add: e pow2_def)
  next
    case False
    with pos have "1 < bitlen_nat m" by simp
    then have "nat (int (bitlen_nat m) - 1) = bitlen_nat m - 1" by simp
    with \<open>1 < bitlen_nat m\<close> show ?thesis by (simp add: e pow2_def)
  qed
  have "m + 1 \<le> 2 ^ bitlen_nat m" using b[THEN conjunct2] by simp
  then have "(of_nat (m + 1) :: rat) \<le> of_nat (2 ^ bitlen_nat m)"
    by (simp only: of_nat_le_iff)
  then have "(of_nat m :: rat) + 1 \<le> 2 ^ bitlen_nat m" by simp
  with le have "1 / x \<le> 2 ^ bitlen_nat m" by simp
  then have lo: "pow2 (binade x) \<le> x"
    using assms by (simp add: p1 field_simps)
  have "(of_nat (2 ^ (bitlen_nat m - 1)) :: rat) \<le> of_nat m"
    using b[THEN conjunct1] by (simp only: of_nat_le_iff)
  then have "(2 :: rat) ^ (bitlen_nat m - 1) \<le> of_nat m" by simp
  then have "(2 :: rat) ^ (bitlen_nat m - 1) < 1 / x" using lt by (rule le_less_trans)
  then have "x < pow2 (binade x + 1)"
    unfolding p2 using assms by (simp add: field_simps)
  with lo show ?thesis by simp
qed

lemma roundTiesToEven_nearest: "\<bar>of_int (roundTiesToEven t) - t\<bar> \<le> (1 / 2 :: rat)"
proof -
  have "of_int \<lfloor>t\<rfloor> \<le> t" "t < of_int \<lfloor>t\<rfloor> + 1" by linarith+
  then show ?thesis
    by (auto simp add: roundTiesToEven_def Let_def abs_le_iff)
qed

lemma toDouble_nearest:
  assumes "x \<noteq> 0"
  shows "\<bar>toDouble x - x\<bar> \<le> pow2 (max (binade \<bar>x\<bar>) (- 1022) - 52) / 2"
proof -
  define q where "q = pow2 (max (binade \<bar>x\<bar>) (- 1022) - 52)"
  have q: "0 < q" by (simp add: q_def pow2_def)
  define r where "r = (of_int (roundTiesToEven (\<bar>x\<bar> / q)) :: rat)"
  have "\<bar>r - \<bar>x\<bar> / q\<bar> \<le> 1 / 2" unfolding r_def by (rule roundTiesToEven_nearest)
  then have "\<bar>r - \<bar>x\<bar> / q\<bar> * q \<le> 1 / 2 * q" using q by (simp only: mult_le_cancel_right_pos)
  moreover have "\<bar>r - \<bar>x\<bar> / q\<bar> * q = \<bar>r * q - \<bar>x\<bar>\<bar>"
  proof -
    have "\<bar>r - \<bar>x\<bar> / q\<bar> * q = \<bar>(r - \<bar>x\<bar> / q) * q\<bar>" using q by (simp add: abs_mult)
    also have "(r - \<bar>x\<bar> / q) * q = r * q - \<bar>x\<bar>" using q by (simp add: field_simps)
    finally show ?thesis .
  qed
  ultimately have n: "\<bar>r * q - \<bar>x\<bar>\<bar> \<le> q / 2" by simp
  have "toDouble x = sgn x * r * q" using assms by (simp add: toDouble_def Let_def q_def r_def)
  then have "toDouble x - x = sgn x * (r * q - \<bar>x\<bar>)"
    using mult_sgn_abs[of x] by (simp add: algebra_simps)
  then have "\<bar>toDouble x - x\<bar> = \<bar>r * q - \<bar>x\<bar>\<bar>"
    using assms by (simp add: abs_mult abs_sgn_eq)
  with n show ?thesis by (simp add: q_def)
qed

section \<open>Properties of eviction\<close>

lemma deleteAsync_cases:
  "deleteAsync st p =
     (case faults st (Delete p) of
        Some e \<Rightarrow> Inl e
      | None \<Rightarrow> if exists_f (stat st p) then Inr (removePath st p)
                else Inl (Error ''File could not be deleted''))"
  by (simp add: deleteAsync_def removePath_def split: option.splits)

lemma removePath_simps [simp]:
  "stat (removePath st p) q = (if q = p then notExisting else stat st q)"
  "faults (removePath st p) = faults st"
  "transport (removePath st p) = transport st"
  "transportLog (removePath st p) = transportLog st"
  "children (removePath st p) d =
     (if d = p then None else map_option (filter (\<lambda>n. d @ n \<noteq> p)) (children st d))"
  by (simp_all add: removePath_def)

lemma sizeMB_Cons: "sizeMB (f # fs) = of_nat (sizeOr0 f) / MiB + sizeMB fs"
  by (simp add: sizeMB_def add_divide_distrib)

lemma sizeMB_Nil [simp]: "sizeMB [] = 0"
  by (simp add: sizeMB_def)

lemma evictLoop_Cons:
  "thr = lowWaterMark m \<Longrightarrow> evictLoop m st cur (f # rest) =
     (if cur \<le> thr then (Inr (), st)
      else case deleteAsync st (path f) of
             Inl e \<Rightarrow> (Inl e, st)
           | Inr st' \<Rightarrow> evictLoop m st' (cur - of_nat (sizeOr0 f) / MiB) rest)"
  by (simp add: Let_def split: sum.splits)

lemma evictLoop_char:
  assumes "thr = lowWaterMark m" and "distinct (map path files)"
    and "\<forall>f \<in> set files. exists_f (stat st (path f))"
  shows "\<exists>k \<le> length files.
           snd (evictLoop m st cur files) = foldl removePath st (map path (take k files))
         \<and> (\<forall>j < k. \<not> cur - sizeMB (take j files) \<le> thr
                    \<and> faults st (Delete (path (files ! j))) = None)
         \<and> (case fst (evictLoop m st cur files) of
              Inr u \<Rightarrow> k = length files \<or> cur - sizeMB (take k files) \<le> thr
            | Inl e \<Rightarrow> k < length files \<and> \<not> cur - sizeMB (take k files) \<le> thr
                       \<and> faults st (Delete (path (files ! k))) = Some e)"
  using assms(2,3)
proof (induction files arbitrary: st cur)
  case Nil
  then show ?case by simp
next
  case (Cons f fs)
  show ?case
  proof (cases "cur \<le> thr")
    case True
    then show ?thesis
      by (intro exI[of _ 0]) (simp add: evictLoop_Cons[OF assms(1)] del: evictLoop.simps(2))
  next
    case above: False
    show ?thesis
    proof (cases "faults st (Delete (path f))")
      case (Some e)
      with above Cons.prems show ?thesis
        by (intro exI[of _ 0]) (simp add: deleteAsync_cases evictLoop_Cons[OF assms(1)] del: evictLoop.simps(2))
    next
      case None
      let ?st = "removePath st (path f)"
      let ?cur = "cur - of_nat (sizeOr0 f) / MiB"
      from None above Cons.prems
      have step: "evictLoop m st cur (f # fs) = evictLoop m ?st ?cur fs"
        by (simp add: deleteAsync_cases evictLoop_Cons[OF assms(1)] del: evictLoop.simps(2))
      have "distinct (map path fs)" using Cons.prems by simp
      moreover have "\<forall>g \<in> set fs. exists_f (stat ?st (path g))"
        using Cons.prems by (fastforce simp: image_iff)
      ultimately obtain k where k: "k \<le> length fs"
        "snd (evictLoop m ?st ?cur fs) = foldl removePath ?st (map path (take k fs))"
        "\<forall>j < k. \<not> ?cur - sizeMB (take j fs) \<le> thr
                    \<and> faults ?st (Delete (path (fs ! j))) = None"
        "case fst (evictLoop m ?st ?cur fs) of
              Inr u \<Rightarrow> k = length fs \<or> ?cur - sizeMB (take k fs) \<le> thr
            | Inl e \<Rightarrow> k < length fs \<and> \<not> ?cur - sizeMB (take k fs) \<le> thr
                       \<and> faults ?st (Delete (path (fs ! k))) = Some e"
        using Cons.IH[of ?st ?cur] by blast
      have eq: "\<And>j. ?cur - sizeMB (take j fs) = cur - sizeMB (take (Suc j) (f # fs))"
        by (simp add: sizeMB_Cons)
      show ?thesis
      proof (intro exI[of _ "Suc k"] conjI)
        show "Suc k \<le> length (f # fs)" using k(1) by simp
        show "snd (evictLoop m st cur (f # fs)) =
                foldl removePath st (map path (take (Suc k) (f # fs)))"
          using k(2) step by simp
        show "\<forall>j<Suc k. \<not> cur - sizeMB (take j (f # fs)) \<le> thr \<and>
                faults st (Delete (path ((f # fs) ! j))) = None"
        proof (intro allI impI)
          fix j assume "j < Suc k"
          show "\<not> cur - sizeMB (take j (f # fs)) \<le> thr \<and>
                faults st (Delete (path ((f # fs) ! j))) = None"
          proof (cases j)
            case 0
            then show ?thesis using above None by simp
          next
            case (Suc i)
            with \<open>j < Suc k\<close> have "i < k" by simp
            have B: "?cur - sizeMB (take i fs) = cur - sizeMB (take j (f # fs))"
              by (simp add: Suc sizeMB_Cons)
            have C: "(f # fs) ! j = fs ! i" by (simp add: Suc)
            from k(3) \<open>i < k\<close>
            have "\<not> ?cur - sizeMB (take i fs) \<le> thr
                  \<and> faults ?st (Delete (path (fs ! i))) = None" by blast
            then show ?thesis unfolding B C by simp
          qed
        qed
        show "case fst (evictLoop m st cur (f # fs)) of
               Inl e \<Rightarrow> Suc k < length (f # fs) \<and>
                 \<not> cur - sizeMB (take (Suc k) (f # fs)) \<le> thr \<and>
                 faults st (Delete (path ((f # fs) ! Suc k))) = Some e
             | Inr u \<Rightarrow> Suc k = length (f # fs) \<or>
                 cur - sizeMB (take (Suc k) (f # fs)) \<le> thr"
          using k(4) unfolding step eq[of k] by (simp split: sum.splits)
      qed
    qed
  qed
qed

lemma entryOf_simps [simp]:
  "path (entryOf st d n) = d @ n"
  "name (entryOf st d n) = n"
  "exists_f (entryOf st d n) = exists_f (stat st (d @ n))"
  "isDirectory (entryOf st d n) = isDirectory (stat st (d @ n))"
  "sizeOr0 (entryOf st d n) = sizeOr0 (stat st (d @ n))"
  "timeOr0 (entryOf st d n) = timeOr0 (stat st (d @ n))"
  "modificationTime (entryOf st d n) = modificationTime (stat st (d @ n))"
  by (auto simp: entryOf_def sizeOr0_def timeOr0_def)

lemma promiseAll_Inr: "promiseAll (map (\<lambda>x. Inr (g x)) xs) = Inr (map g xs)"
  by (induction xs) simp_all

lemma fileEntry_ok:
  "faults st (GetInfo (d @ n)) = None \<Longrightarrow> fileEntry st d n = Inr (entryOf st d n)"
  by (simp add: fileEntry_def getInfoAsync_def entryOf_def Let_def)

lemma fileInfos_of_ok:
  assumes "children st d = Some files" and "faults st (ReadDirectory d) = None"
    and "\<forall>n \<in> set files. faults st (GetInfo (d @ n)) = None"
  shows "fileInfos_of st d = Inr (map (entryOf st d) files)"
proof -
  have m: "map (fileEntry st d) files = map (\<lambda>n. Inr (entryOf st d n)) files"
    using assms(3) by (simp add: fileEntry_ok)
  show ?thesis
    using assms(1,2) by (simp add: fileInfos_of_def readDirectoryAsync_def m promiseAll_Inr)
qed

lemma foldl_removePath_faults [simp]: "faults (foldl removePath st ps) = faults st"
  by (induction ps arbitrary: st) simp_all

lemma foldl_removePath_stat:
  "stat (foldl removePath st ps) q = (if q \<in> set ps then notExisting else stat st q)"
  by (induction ps arbitrary: st) auto

lemma foldl_removePath_children:
  "children (foldl removePath st ps) d =
     (if d \<in> set ps then None
      else map_option (filter (\<lambda>n. d @ n \<notin> set ps)) (children st d))"
proof (induction ps arbitrary: st)
  case Nil
  then show ?case by (cases "children st d") simp_all
next
  case (Cons p ps)
  show ?case
    by (simp add: Cons.IH option.map_comp comp_def conj_commute)
qed

lemma totalSize_of_sum_list: "totalSize_of xs = sum_list (map sizeOr0 xs)"
proof -
  have "foldl (\<lambda>sum file. sum + sizeOr0 file) a xs = a + sum_list (map sizeOr0 xs)" for a
    by (induction xs arbitrary: a) simp_all
  then show ?thesis by (simp add: totalSize_of_def)
qed

text \<open>The scan of the directory after a set of its files has been removed.\<close>

lemma fileInfos_of_after_removal:
  assumes "children st d = Some files" and "faults st (ReadDirectory d) = None"
    and "\<forall>n \<in> set files. faults st (GetInfo (d @ n)) = None"
    and "d \<notin> set ps"
  shows "fileInfos_of (foldl removePath st ps) d =
           Inr (filter (\<lambda>e. path e \<notin> set ps) (map (entryOf st d) files))"
proof -
  let ?st = "foldl removePath st ps"
  let ?files = "filter (\<lambda>n. d @ n \<notin> set ps) files"
  have ch: "children ?st d = Some ?files"
    using assms(1,4) by (simp add: foldl_removePath_children)
  have "fileInfos_of ?st d = Inr (map (entryOf ?st d) ?files)"
    by (rule fileInfos_of_ok[OF ch]) (use assms in auto)
  moreover have "map (entryOf ?st d) ?files = map (entryOf st d) ?files"
    by (rule map_cong) (auto simp: entryOf_def foldl_removePath_stat)
  moreover have "map (entryOf st d) ?files =
                   filter (\<lambda>e. path e \<notin> set ps) (map (entryOf st d) files)"
    by (simp add: filter_map comp_def)
  ultimately show ?thesis by simp
qed

lemma set_sortedFiles:
  "set (sortedFiles_of (existingFiles_of (map (entryOf st d) files))) =
     entryOf st d ` {n \<in> set files. isFile (stat st (d @ n)) \<and>
                                    modificationTime (stat st (d @ n)) \<noteq> None}"
  by (auto simp: sortedFiles_of_def existingFiles_of_def isFile_def)

lemma set_existingFiles:
  "set (existingFiles_of (map (entryOf st d) files)) =
     entryOf st d ` {n \<in> set files. isFile (stat st (d @ n))}"
  by (auto simp: existingFiles_of_def isFile_def)

lemma inj_entryOf: "inj (entryOf st d)"
  by (rule injI) (metis entryOf_simps(2))

lemma distinct_existingFiles:
  "distinct files \<Longrightarrow> distinct (existingFiles_of (map (entryOf st d) files))"
  by (simp add: existingFiles_of_def distinct_map inj_entryOf[THEN inj_on_subset])

lemma distinct_sortedFiles:
  "distinct files \<Longrightarrow> distinct (sortedFiles_of (existingFiles_of (map (entryOf st d) files)))"
  using distinct_existingFiles[of files st d] by (simp add: sortedFiles_of_def)

lemma inj_on_path_entries: "inj_on path (entryOf st d ` A)"
  by (rule inj_onI) (auto simp: entryOf_def)

lemma distinct_path_sortedFiles:
  "distinct files \<Longrightarrow>
     distinct (map path (sortedFiles_of (existingFiles_of (map (entryOf st d) files))))"
  by (simp add: distinct_map distinct_sortedFiles set_sortedFiles inj_on_path_entries)

lemma sorted_sortedFiles: "sorted (map timeOr0 (sortedFiles_of xs))"
  by (simp add: sortedFiles_of_def)

lemma sorted_take_drop_le:
  assumes "sorted (map f xs)" and "x \<in> set (take k xs)" and "y \<in> set (drop k xs)"
  shows "f x \<le> f y"
proof -
  have "sorted (map f (take k xs) @ map f (drop k xs))"
    using assms(1) by (simp flip: map_append)
  then show ?thesis using assms(2,3) by (auto simp: sorted_append)
qed

lemma distinct_take_drop_set:
  assumes "distinct xs"
  shows "set (drop k xs) = set xs - set (take k xs)"
proof -
  have "distinct (take k xs @ drop k xs)" using assms by simp
  then have "set (take k xs) \<inter> set (drop k xs) = {}" by (simp only: distinct_append)
  moreover have "set xs = set (take k xs) \<union> set (drop k xs)"
    by (metis append_take_drop_id set_append)
  ultimately show ?thesis by blast
qed

lemma sum_list_take_drop:
  "sum_list (map f xs) = sum_list (map f (take k xs)) + (sum_list (map f (drop k xs)) :: nat)"
  by (metis append_take_drop_id map_append sum_list_append)

lemma totalSizeMB_after_removal:
  assumes sc: "scannable st d files"
    and S: "S = sortedFiles_of (existingFiles_of (map (entryOf st d) files))"
  shows "totalSizeMB_of (foldl removePath st (map path (take k S))) d =
           Inr (of_nat (totalSize_of (existingFiles_of (map (entryOf st d) files))) / MiB
                - sizeMB (take k S))"
proof -
  let ?E = "map (entryOf st d) files"
  let ?X = "existingFiles_of ?E"
  let ?T = "take k S"
  let ?ps = "map path ?T"
  let ?X' = "filter (\<lambda>e. path e \<notin> set ?ps) ?X"
  from sc have ch: "children st d = Some files" and dist: "distinct files"
    and ne: "[] \<notin> set files" and rd: "faults st (ReadDirectory d) = None"
    and gi: "\<forall>n \<in> set files. faults st (GetInfo (d @ n)) = None"
    by (simp_all add: scannable_def)
  have SX: "set S \<subseteq> set ?X"
    unfolding S by (auto simp: sortedFiles_of_def)
  have TX: "set ?T \<subseteq> set ?X"
    using SX set_take_subset[of k S] by blast
  have d_notin: "d \<notin> set ?ps"
  proof
    assume "d \<in> set ?ps"
    then obtain f where "f \<in> set ?T" and "path f = d" by auto
    with TX have "f \<in> set ?X" by blast
    then obtain n where "n \<in> set files" and "f = entryOf st d n"
      by (auto simp: set_existingFiles)
    with \<open>path f = d\<close> ne show False by simp
  qed
  have scan: "fileInfos_of (foldl removePath st ?ps) d =
                Inr (filter (\<lambda>e. path e \<notin> set ?ps) ?E)"
    by (rule fileInfos_of_after_removal[OF ch rd gi d_notin])
  have comm: "existingFiles_of (filter (\<lambda>e. path e \<notin> set ?ps) ?E) = ?X'"
    by (simp add: existingFiles_of_def conj_commute)
  have injX: "inj_on path (set ?X)"
    unfolding set_existingFiles by (rule inj_on_path_entries)
  have setX': "set ?X' = set ?X - set ?T"
  proof (intro set_eqI iffI)
    fix e assume "e \<in> set ?X'"
    then show "e \<in> set ?X - set ?T" by auto
  next
    fix e assume e: "e \<in> set ?X - set ?T"
    have "path e \<notin> set ?ps"
    proof
      assume "path e \<in> set ?ps"
      then obtain f where f: "f \<in> set ?T" "path f = path e" by auto
      with TX e injX have "f = e" by (auto dest: inj_onD)
      with f e show False by simp
    qed
    with e show "e \<in> set ?X'" by simp
  qed
  have dX: "distinct ?X" by (rule distinct_existingFiles[OF dist])
  have dT: "distinct ?T" unfolding S by (simp add: distinct_sortedFiles[OF dist])
  have "totalSize_of ?X = sum sizeOr0 (set ?X)"
    by (simp add: totalSize_of_sum_list sum_list_distinct_conv_sum_set[OF dX])
  also have "\<dots> = sum sizeOr0 (set ?X - set ?T) + sum sizeOr0 (set ?T)"
    by (rule sum.subset_diff[OF TX]) simp
  also have "sum sizeOr0 (set ?X - set ?T) = totalSize_of ?X'"
    using dX by (simp add: totalSize_of_sum_list sum_list_distinct_conv_sum_set flip: setX')
  also have "sum sizeOr0 (set ?T) = sum_list (map sizeOr0 ?T)"
    by (simp add: sum_list_distinct_conv_sum_set[OF dT])
  finally have "totalSize_of ?X = totalSize_of ?X' + sum_list (map sizeOr0 ?T)" .
  then have "(of_nat (totalSize_of ?X') :: rat) / MiB = of_nat (totalSize_of ?X) / MiB - sizeMB ?T"
    by (simp add: sizeMB_def add_divide_distrib)
  then show ?thesis
    by (simp only: totalSizeMB_of_def scan sum.case comm)
qed

lemma snd_manageCacheSize:
  "snd (manageCacheSize d m st) = snd (manageCacheSize_try d m st)"
  by (simp add: manageCacheSize_def split: prod.splits sum.splits)

lemma fst_manageCacheSize: "fst (manageCacheSize d m st) = Inr ()"
  by (simp add: manageCacheSize_def split: prod.splits sum.splits)

lemma manageCacheSize_try_char:
  assumes sc: "scannable st d files"
    and S: "S = sortedFiles_of (existingFiles_of (map (entryOf st d) files))"
    and tot: "tot = of_nat (totalSize_of (existingFiles_of (map (entryOf st d) files))) / MiB"
    and over: "tot > m"
  shows "\<exists>k \<le> length S.
           snd (manageCacheSize_try d m st) = foldl removePath st (map path (take k S))
         \<and> (\<forall>j < k. \<not> tot - sizeMB (take j S) \<le> lowWaterMark m
                    \<and> faults st (Delete (path (S ! j))) = None)
         \<and> (case fst (manageCacheSize_try d m st) of
              Inr u \<Rightarrow> k = length S \<or> tot - sizeMB (take k S) \<le> lowWaterMark m
            | Inl e \<Rightarrow> k < length S \<and> \<not> tot - sizeMB (take k S) \<le> lowWaterMark m
                       \<and> faults st (Delete (path (S ! k))) = Some e)"
proof -
  from sc have ch: "children st d = Some files" and dist: "distinct files"
    and rd: "faults st (ReadDirectory d) = None"
    and gi: "\<forall>n \<in> set files. faults st (GetInfo (d @ n)) = None"
    by (simp_all add: scannable_def)
  have scan: "fileInfos_of st d = Inr (map (entryOf st d) files)"
    by (rule fileInfos_of_ok[OF ch rd gi])
  have run: "manageCacheSize_try d m st = evictLoop m st tot S"
    using over by (simp add: manageCacheSize_try_def scan Let_def S tot)
  have dp: "distinct (map path S)"
    unfolding S by (rule distinct_path_sortedFiles[OF dist])
  have ex: "\<forall>f \<in> set S. exists_f (stat st (path f))"
    unfolding S set_sortedFiles by (auto simp: isFile_def)
  show ?thesis
    unfolding run by (rule evictLoop_char[OF refl dp ex])
qed

lemma regularFile_simps [simp]:
  "exists_f (regularFile s t)" "\<not> isDirectory (regularFile s t)"
  "size_f (regularFile s t) = Some s" "modificationTime (regularFile s t) = Some t"
  "sizeOr0 (regularFile s t) = s" "timeOr0 (regularFile s t) = t" "isFile (regularFile s t)"
  by (simp_all add: regularFile_def sizeOr0_def timeOr0_def isFile_def)

lemma stat_after_removal_cases:
  assumes "st' = foldl removePath st (map path (take k S))"
    and "distinct S" and "inj_on path (set S)" and "f \<in> set S"
  shows "exists_f (stat st' (path f)) \<Longrightarrow> f \<in> set (drop k S)"
    and "exists_f (stat st (path f)) \<Longrightarrow> \<not> exists_f (stat st' (path f)) \<Longrightarrow> f \<in> set (take k S)"
proof -
  have mem: "path f \<in> set (map path (take k S)) \<longleftrightarrow> f \<in> set (take k S)"
  proof
    assume "path f \<in> set (map path (take k S))"
    then obtain g where g: "g \<in> set (take k S)" "path g = path f" by auto
    then have "g \<in> set S" using set_take_subset[of k S] by blast
    with assms(3,4) g(2) have "g = f" by (auto dest: inj_onD)
    with g(1) show "f \<in> set (take k S)" by simp
  qed auto
  show "exists_f (stat st' (path f)) \<Longrightarrow> f \<in> set (drop k S)"
    using assms(2,4) mem
    by (auto simp: assms(1) foldl_removePath_stat notExisting_def distinct_take_drop_set
             split: if_splits)
  show "exists_f (stat st (path f)) \<Longrightarrow> \<not> exists_f (stat st' (path f)) \<Longrightarrow> f \<in> set (take k S)"
    using mem by (auto simp: assms(1) foldl_removePath_stat split: if_splits)
qed

lemma sizeMB_take_const:
  assumes "\<forall>f \<in> set xs. sizeOr0 f = c" and "j \<le> length xs"
  shows "sizeMB (take j xs) = of_nat (j * c) / MiB"
proof -
  have "map sizeOr0 (take j xs) = replicate j c"
    using assms by (auto simp: list_eq_iff_nth_eq)
  then show ?thesis by (simp add: sizeMB_def sum_list_replicate)
qed

lemma sizeMB_take_mono: "j \<le> k \<Longrightarrow> sizeMB (take j xs) \<le> sizeMB (take k xs)"
proof -
  assume "j \<le> k"
  then have "take j xs = take j (take k xs)" by (simp add: min_def)
  then have "sum_list (map sizeOr0 (take j xs)) \<le> sum_list (map sizeOr0 (take k xs))"
    using sum_list_take_drop[of sizeOr0 "take k xs" j] by simp
  then show ?thesis
    by (simp add: sizeMB_def MiB_def divide_le_cancel)
qed

text \<open>Unfolding these evaluates an eviction pass on a concrete storage state.\<close>

lemmas eval_defs = manageCacheSize_def manageCacheSize_try_def fileInfos_of_def readDirectoryAsync_def
  fileEntry_def getInfoAsync_def existingFiles_of_def totalSize_of_def sortedFiles_of_def
  sizeOr0_def timeOr0_def MiB_def deleteAsync_def regularFile_def totalSizeMB_of_def
  notExisting_def directoryInfo_def Let_def

section \<open>Properties of the hook\<close>

lemma deleteAsync_static:
  "deleteAsync st p = Inr st' \<Longrightarrow>
     faults st' = faults st \<and> transport st' = transport st \<and> transportLog st' = transportLog st"
  by (auto simp: deleteAsync_def split: option.splits if_splits)

lemma evictLoop_static:
  "faults (snd (evictLoop m st cur files)) = faults st
   \<and> transport (snd (evictLoop m st cur files)) = transport st
   \<and> transportLog (snd (evictLoop m st cur files)) = transportLog st"
proof (induction files arbitrary: st cur)
  case Nil
  then show ?case by simp
next
  case (Cons f fs)
  show ?case
  proof (cases "deleteAsync st (path f)")
    case (Inl e)
    then show ?thesis by simp
  next
    case (Inr st1)
    with Cons.IH[of st1] deleteAsync_static[OF Inr] show ?thesis
      by (simp add: Let_def)
  qed
qed

lemma manageCacheSize_static:
  "faults (snd (manageCacheSize d m st)) = faults st"
  "transport (snd (manageCacheSize d m st)) = transport st"
  "transportLog (snd (manageCacheSize d m st)) = transportLog st"
  using evictLoop_static
  by (auto simp: snd_manageCacheSize manageCacheSize_try_def Let_def split: sum.splits)

lemma ensureCacheDirectory_static:
  "faults (snd (ensureCacheDirectory d st)) = faults st"
  "transport (snd (ensureCacheDirectory d st)) = transport st"
  "transportLog (snd (ensureCacheDirectory d st)) = transportLog st"
  by (auto simp: ensureCacheDirectory_def makeDirectoryAsync_def split: sum.splits option.splits)

lemma preflight_static:
  assumes "st2 = snd (manageCacheSize d m (snd (ensureCacheDirectory d st)))"
  shows "faults st2 = faults st" "transport st2 = transport st" "transportLog st2 = transportLog st"
  by (simp_all add: assms manageCacheSize_static ensureCacheDirectory_static)

lemma foldl_onDownloadProgress:
  "videoSource (foldl (\<lambda>h ev. onDownloadProgress ev h) h events) = videoSource h"
  "isLoading (foldl (\<lambda>h ev. onDownloadProgress ev h) h events) = isLoading h"
  "error (foldl (\<lambda>h ev. onDownloadProgress ev h) h events) = error h"
  "isCached (foldl (\<lambda>h ev. onDownloadProgress ev h) h events) = isCached h"
  by (induction events arbitrary: h) (simp_all add: onDownloadProgress_def split: prod.splits)

lemma checkIfCached_Inr: "\<exists>b. checkIfCached d now st url = Inr b"
  by (auto simp: checkIfCached_def Let_def split: sum.splits)

lemma downloadVideo_resolves: "\<exists>r. fst (downloadVideo d m now1 now2 url h st) = Inr r"
  by (simp add: downloadVideo_def split: prod.splits sum.splits)

lemma endTransfer_simps:
  "fst (endTransfer st url p) = progressEvents (transport st url p)"
  "fst (snd (endTransfer st url p)) = settled (transport st url p)"
  "stat (snd (snd (endTransfer st url p))) q =
     (case written (transport st url p) of
        None \<Rightarrow> stat st q
      | Some info \<Rightarrow> if q = p then info else stat st q)"
  "faults (snd (snd (endTransfer st url p))) = faults st"
  "transport (snd (snd (endTransfer st url p))) = transport st"
  "transportLog (snd (snd (endTransfer st url p))) = transportLog st"
  by (simp_all add: endTransfer_def writeFile_def Let_def split: option.splits)

lemma startTransfer_simps [simp]:
  "stat (startTransfer st url p) = stat st"
  "children (startTransfer st url p) = children st"
  "faults (startTransfer st url p) = faults st"
  "transport (startTransfer st url p) = transport st"
  "transportLog (startTransfer st url p) = transportLog st @ [(url, p)]"
  by (simp_all add: startTransfer_def)

lemma downloadAsync_simps:
  "fst (downloadAsync st url p) = progressEvents (transport st url p)"
  "fst (snd (downloadAsync st url p)) = settled (transport st url p)"
  "stat (snd (snd (downloadAsync st url p))) q =
     (case written (transport st url p) of
        None \<Rightarrow> stat st q
      | Some info \<Rightarrow> if q = p then info else stat st q)"
  "faults (snd (snd (downloadAsync st url p))) = faults st"
  "transport (snd (snd (downloadAsync st url p))) = transport st"
  "transportLog (snd (snd (downloadAsync st url p))) = transportLog st @ [(url, p)]"
  by (simp_all add: downloadAsync_def endTransfer_simps split: option.splits)

text \<open>When the \<open>try\<close> block of \<open>downloadVideo\<close> returns a path.\<close>

lemma downloadVideo_try_returns:
  assumes "fst (downloadVideo_try d m now1 now2 url h st) = Inr p"
  shows "fst (ensureCacheDirectory d st) = Inr ()
       \<and> (checkIfCached d now2 (snd (manageCacheSize d m (snd (ensureCacheDirectory d st)))) url
            = Inr True \<and> p = getCacheFilePath d now1 url
          \<or> checkIfCached d now2 (snd (manageCacheSize d m (snd (ensureCacheDirectory d st)))) url
            = Inr False
            \<and> settled (transport st url (getCacheFilePath d now1 url)) = Inr (Some p) \<and> p \<noteq> [])"
proof -
  obtain r1 st1 where e: "ensureCacheDirectory d st = (r1, st1)" by (cases "ensureCacheDirectory d st")
  obtain r2 st2 where m: "manageCacheSize d m st1 = (r2, st2)" by (cases "manageCacheSize d m st1")
  have r2: "r2 = Inr ()" using fst_manageCacheSize[of d m st1] m by simp
  have tr: "transport st2 = transport st"
    using manageCacheSize_static(2)[of d m st1] ensureCacheDirectory_static(2)[of d st] e m by simp
  obtain ev res st3 where dl: "downloadAsync st2 url (getCacheFilePath d now1 url) = (ev, res, st3)"
    by (cases "downloadAsync st2 url (getCacheFilePath d now1 url)")
  have res: "res = settled (transport st url (getCacheFilePath d now1 url))"
    using downloadAsync_simps(2)[of st2 url "getCacheFilePath d now1 url"] dl tr by simp
  from assms show ?thesis
    using e m r2 dl res checkIfCached_Inr[of d now2 st2 url]
    by (auto simp: downloadVideo_try_def Let_def split: sum.splits option.splits if_splits)
qed

lemmas hook_eval_defs = downloadVideo_def downloadVideo_try_def downloadVideo_begin_def
  downloadVideo_catch_def downloadVideo_finally_def ensureCacheDirectory_def
  makeDirectoryAsync_def checkIfCached_def getCacheFilePath_def getCacheFilename_def
  includes_str_def downloadAsync_def startTransfer_def endTransfer_def writeFile_def
  onDownloadProgress_def js_div_def js_times_def Math_round_def cacheDir_of_def
  handleVideoSource_def preloadVideo_def DEFAULT_OPTIONS_def initialState_def
  parentDir_def baseName_def

lemma onDownloadProgress_in_range:
  assumes "0 \<le> w" and "w \<le> e" and "0 < e"
  shows "\<exists>p. cacheProgress (onDownloadProgress (w, e) h) = Fin (of_int p) \<and> 0 \<le> p \<and> p \<le> 100
           \<and> progress_spec (w, e) = Fin (of_int p)"
proof -
  define r where "r = toDouble (of_int w / of_int e)"
  define y where "y = js_mul r 100"
  have x: "0 \<le> (of_int w / of_int e :: rat)" "(of_int w / of_int e :: rat) \<le> of_int 1"
    "(of_int w / of_int e :: rat) \<le> 100"
    using assms by (simp_all add: divide_le_eq)
  have r: "0 \<le> r" "r \<le> 1"
    using toDouble_nonneg[OF x(1)] toDouble_le[OF x] by (simp_all add: r_def)
  then have x': "0 \<le> r * 100" "r * 100 \<le> of_int 100" "r * 100 \<le> 100" by simp_all
  have y: "0 \<le> y" "y \<le> 100"
    using toDouble_nonneg[OF x'(1)] toDouble_le[OF x'] by (simp_all add: y_def js_mul_def)
  then have "0 \<le> \<lfloor>y + 1 / 2\<rfloor>" and "\<lfloor>y + 1 / 2\<rfloor> \<le> 100"
    by (simp_all add: le_floor_iff floor_le_iff)
  with assms show ?thesis
    by (intro exI[of _ "\<lfloor>y + 1 / 2\<rfloor>"])
      (simp add: onDownloadProgress_def progress_spec_def js_div_def js_times_def Math_round_def
        r_def y_def)
qed

text \<open>
  The percentage is rounded from the double: 29 of 200 bytes give 14, since
  \<open>29 / 200 * 100\<close> is the double just below 14.5.
\<close>

lemma onDownloadProgress_rounds_the_double:
  "cacheProgress (onDownloadProgress (29, 200) h) = Fin 14"
proof -
  define d :: rat where "d = 5224175567749775 / 36028797018963968"
  define y :: rat where "y = 29 / 2 - 1 / 2 ^ 49"
  have a: "toDouble (29 / 200) = d"
    by (simp add: d_def double_eval_defs)
  have b: "js_mul d 100 = y"
    by (simp add: js_mul_def d_def y_def) (simp add: double_eval_defs)
  have c: "\<lfloor>y + 1 / 2\<rfloor> = 14"
    unfolding y_def by (rule floor_unique) simp_all
  have "js_div 29 200 = Fin d"
    using a by (simp add: js_div_def)
  then show ?thesis
    using b c by (simp add: onDownloadProgress_def js_times_def Math_round_def)
qed

section \<open>Properties of interleaved calls\<close>


















text \<open>One call that makes its four steps undisturbed is \<open>downloadVideo\<close>.\<close>

lemma run_single_call:
  "run d m [0, 0, 0, 0]
     \<lparr>hook = h, storage = st,
      calls = [\<lparr>call_url = url, call_now1 = n1, call_now2 = n2, call_pc = Start\<rparr>]\<rparr>
   = (case downloadVideo d m n1 n2 url h st of
        (r, h', st') \<Rightarrow>
          \<lparr>hook = h', storage = st',
           calls = [\<lparr>call_url = url, call_now1 = n1, call_now2 = n2,
                     call_pc = Finished (case r of Inl e \<Rightarrow> None | Inr x \<Rightarrow> x)\<rparr>]\<rparr>)"
proof -
  obtain r1 st1 where e: "ensureCacheDirectory d st = (r1, st1)" by (cases "ensureCacheDirectory d st")
  obtain r2 st2 where m: "manageCacheSize d m st1 = (r2, st2)" by (cases "manageCacheSize d m st1")
  obtain b where c: "checkIfCached d n2 st2 url = Inr b"
    using checkIfCached_Inr by blast
  obtain ev res st3 where
    t: "endTransfer (startTransfer st2 url (getCacheFilePath d n1 url)) url (getCacheFilePath d n1 url)
          = (ev, res, st3)"
    by (cases "endTransfer (startTransfer st2 url (getCacheFilePath d n1 url)) url
                 (getCacheFilePath d n1 url)")
  show ?thesis
    using e m c t
    by (cases r1; cases r2; cases b; cases res)
      (auto simp: run_def step_def stepCall_def downloadVideo_def downloadVideo_try_def
        downloadAsync_def Let_def split: option.splits)
qed

section \<open>Claims about eviction\<close>

subsection \<open>A deletion that fails\<close>

text \<open>
  Claim C2, as amended. The deletions are inside the one \<open>try\<close> block of
  \<open>manageCacheSize\<close>, so a deletion that fails ends the pass: if the pass reaches the
  entry at position \<open>k\<close> of the oldest-first order and deleting it throws \<open>e\<close>, the
  \<open>try\<close> block is left with \<open>e\<close>, which \<open>manageCacheSize\<close> catches, so that
  it still resolves; the entries before position \<open>k\<close> are deleted, and the failing
  entry and every later entry are left in place.
\<close>

theorem manageCacheSize_stops_at_failed_delete:
  assumes sc: "scannable st cacheDir files"
    and infos: "fileInfos_of st cacheDir = Inr fileInfos"
    and S: "sortedFiles = sortedFiles_of (existingFiles_of fileInfos)"
    and before: "totalSizeMB_of st cacheDir = Inr before"
    and over: "before > maxSize"
    and k: "k < length sortedFiles"
    and ok: "\<forall>j < k. faults st (Delete (path (sortedFiles ! j))) = None"
    and fail: "faults st (Delete (path (sortedFiles ! k))) = Some e"
    and need: "\<not> before - sizeMB (take k sortedFiles) \<le> js_mul maxSize (toDouble (8 / 10))"
    and st': "st' = snd (manageCacheSize cacheDir maxSize st)"
  shows "fst (manageCacheSize_try cacheDir maxSize st) = Inl e
       \<and> fst (manageCacheSize cacheDir maxSize st) = Inr ()
       \<and> (\<forall>j < k. \<not> exists_f (stat st' (path (sortedFiles ! j))))
       \<and> (\<forall>j. k \<le> j \<and> j < length sortedFiles \<longrightarrow>
              stat st' (path (sortedFiles ! j)) = stat st (path (sortedFiles ! j))
            \<and> exists_f (stat st' (path (sortedFiles ! j))))"
proof -
  note need = need[folded lowWaterMark_def]
  let ?m = maxSize
  from sc have ch: "children st cacheDir = Some files" and dist: "distinct files"
    and rd: "faults st (ReadDirectory cacheDir) = None"
    and gi: "\<forall>n \<in> set files. faults st (GetInfo (cacheDir @ n)) = None"
    by (simp_all add: scannable_def)
  have scan: "fileInfos = map (entryOf st cacheDir) files"
    using fileInfos_of_ok[OF ch rd gi] infos by simp
  have S': "sortedFiles = sortedFiles_of (existingFiles_of (map (entryOf st cacheDir) files))"
    by (simp add: S scan)
  have tot: "before = of_nat (totalSize_of (existingFiles_of (map (entryOf st cacheDir) files))) / MiB"
    using before infos by (simp add: totalSizeMB_of_def scan)
  have dS: "distinct sortedFiles" unfolding S' by (rule distinct_sortedFiles[OF dist])
  have dp: "distinct (map path sortedFiles)"
    unfolding S' by (rule distinct_path_sortedFiles[OF dist])
  have ex: "exists_f (stat st (path f))" if "f \<in> set sortedFiles" for f
    using that unfolding S' set_sortedFiles by (auto simp: isFile_def)
  obtain k' where k': "k' \<le> length sortedFiles"
    and res: "snd (manageCacheSize_try cacheDir ?m st) =
                foldl removePath st (map path (take k' sortedFiles))"
    and cont: "\<forall>j < k'. \<not> before - sizeMB (take j sortedFiles) \<le> lowWaterMark ?m
                 \<and> faults st (Delete (path (sortedFiles ! j))) = None"
    and fin: "case fst (manageCacheSize_try cacheDir ?m st) of
                Inr u \<Rightarrow> k' = length sortedFiles
                          \<or> before - sizeMB (take k' sortedFiles) \<le> lowWaterMark ?m
              | Inl e' \<Rightarrow> k' < length sortedFiles
                          \<and> \<not> before - sizeMB (take k' sortedFiles) \<le> lowWaterMark ?m
                          \<and> faults st (Delete (path (sortedFiles ! k'))) = Some e'"
    using manageCacheSize_try_char[OF sc S' tot over] by blast
  have "\<not> k < k'"
    using cont fail by auto
  moreover have "\<not> k' < k"
  proof
    assume less: "k' < k"
    have "sizeMB (take k' sortedFiles) \<le> sizeMB (take k sortedFiles)"
      by (rule sizeMB_take_mono) (use less in simp)
    with need have above: "\<not> before - sizeMB (take k' sortedFiles) \<le> lowWaterMark ?m"
      by simp
    show False
    proof (cases "fst (manageCacheSize_try cacheDir ?m st)")
      case (Inl e')
      with fin ok less show False by simp
    next
      case (Inr u)
      with fin above less k show False by simp
    qed
  qed
  ultimately have kk: "k' = k" by simp
  have aborted: "fst (manageCacheSize_try cacheDir ?m st) = Inl e"
  proof (cases "fst (manageCacheSize_try cacheDir ?m st)")
    case (Inl e')
    with fin fail kk show ?thesis by simp
  next
    case (Inr u)
    with fin need k kk show ?thesis by simp
  qed
  have st'_eq: "st' = foldl removePath st (map path (take k sortedFiles))"
    by (simp add: st' snd_manageCacheSize res kk)
  have gone: "\<not> exists_f (stat st' (path (sortedFiles ! j)))" if "j < k" for j
  proof -
    have "sortedFiles ! j \<in> set (take k sortedFiles)"
      using that k by (auto simp: in_set_conv_nth)
    then show ?thesis
      by (simp add: st'_eq foldl_removePath_stat notExisting_def)
  qed
  have kept: "stat st' (path (sortedFiles ! j)) = stat st (path (sortedFiles ! j))
              \<and> exists_f (stat st' (path (sortedFiles ! j)))"
    if "k \<le> j" "j < length sortedFiles" for j
  proof -
    have "path (sortedFiles ! j) \<notin> set (map path (take k sortedFiles))"
    proof
      assume "path (sortedFiles ! j) \<in> set (map path (take k sortedFiles))"
      then obtain i where i: "i < k" "path (sortedFiles ! i) = path (sortedFiles ! j)"
        using k by (auto simp: in_set_conv_nth)
      with dp that k have "i = j"
        by (auto simp: distinct_conv_nth)
      with i that show False by simp
    qed
    then have "stat st' (path (sortedFiles ! j)) = stat st (path (sortedFiles ! j))"
      by (simp add: st'_eq foldl_removePath_stat)
    with ex[of "sortedFiles ! j"] that show ?thesis by simp
  qed
  from aborted fst_manageCacheSize gone kept show ?thesis by blast
qed

theorem manageCacheSize_stops_at_failed_delete_witness:
  "scannable stuckFile ''d/'' [''a'', ''b'', ''c'']
   \<and> fileInfos_of stuckFile ''d/'' = Inr (map (entryOf stuckFile ''d/'') [''a'', ''b'', ''c''])
   \<and> totalSizeMB_of stuckFile ''d/'' = Inr 3
   \<and> (3 :: rat) > 1
   \<and> 1 < length (sortedFiles_of (existingFiles_of (map (entryOf stuckFile ''d/'') [''a'', ''b'', ''c''])))
   \<and> faults stuckFile (Delete (path
          (sortedFiles_of (existingFiles_of (map (entryOf stuckFile ''d/'') [''a'', ''b'', ''c''])) ! 0)))
        = None
   \<and> faults stuckFile (Delete (path
          (sortedFiles_of (existingFiles_of (map (entryOf stuckFile ''d/'') [''a'', ''b'', ''c''])) ! 1)))
        = Some (Error ''EBUSY'')
   \<and> \<not> 3 - sizeMB (take 1 (sortedFiles_of (existingFiles_of (map (entryOf stuckFile ''d/'') [''a'', ''b'', ''c'']))))
          \<le> js_mul 1 (toDouble (8 / 10))
   \<and> fst (manageCacheSize_try ''d/'' 1 stuckFile) = Inl (Error ''EBUSY'')
   \<and> fst (manageCacheSize ''d/'' 1 stuckFile) = Inr ()
   \<and> \<not> exists_f (stat (snd (manageCacheSize ''d/'' 1 stuckFile)) ''d/a'')
   \<and> exists_f (stat (snd (manageCacheSize ''d/'' 1 stuckFile)) ''d/b'')
   \<and> exists_f (stat (snd (manageCacheSize ''d/'' 1 stuckFile)) ''d/c'')"
proof -
  let ?S = "sortedFiles_of (existingFiles_of (map (entryOf stuckFile ''d/'') [''a'', ''b'', ''c'']))"
  have S: "?S = map (entryOf stuckFile ''d/'') [''a'', ''b'', ''c'']"
    by (simp add: sortedFiles_of_def existingFiles_of_def entryOf_def timeOr0_def
        stuckFile_def regularFile_def)
  have h1: "scannable stuckFile ''d/'' [''a'', ''b'', ''c'']"
    by (simp add: scannable_def stuckFile_def)
  have h2: "fileInfos_of stuckFile ''d/'' = Inr (map (entryOf stuckFile ''d/'') [''a'', ''b'', ''c''])"
    by (rule fileInfos_of_ok) (simp_all add: stuckFile_def)
  have h3: "totalSizeMB_of stuckFile ''d/'' = Inr 3"
    by (simp add: eval_defs stuckFile_def)
  have h4: "(3 :: rat) > 1" by simp
  have h5: "1 < length ?S" unfolding S by simp
  have h6: "\<forall>j < 1. faults stuckFile (Delete (path (?S ! j))) = None"
    unfolding S by (simp add: stuckFile_def)
  have h6': "faults stuckFile (Delete (path (?S ! 0))) = None"
    unfolding S by (simp add: stuckFile_def)
  have h7: "faults stuckFile (Delete (path (?S ! 1))) = Some (Error ''EBUSY'')"
    unfolding S by (simp add: stuckFile_def)
  have h8: "\<not> 3 - sizeMB (take 1 ?S) \<le> lowWaterMark 1"
    unfolding S by (simp add: sizeMB_def MiB_def stuckFile_def low_water_1)
  note h8' = h8[unfolded lowWaterMark_def]
  note r = manageCacheSize_stops_at_failed_delete[OF h1 h2 refl h3 h4 h5 h6 h7 h8' refl]
  note r1 = r[THEN conjunct1] and r2 = r[THEN conjunct2, THEN conjunct1]
    and r3 = r[THEN conjunct2, THEN conjunct2, THEN conjunct1]
    and r4 = r[THEN conjunct2, THEN conjunct2, THEN conjunct2]
  from r3[rule_format, of 0]
  have a: "\<not> exists_f (stat (snd (manageCacheSize ''d/'' 1 stuckFile)) ''d/a'')"
    unfolding S by simp
  from r4[rule_format, of 1, THEN conjunct2]
  have b: "exists_f (stat (snd (manageCacheSize ''d/'' 1 stuckFile)) ''d/b'')"
    unfolding S by simp
  from r4[rule_format, of 2, THEN conjunct2]
  have c: "exists_f (stat (snd (manageCacheSize ''d/'' 1 stuckFile)) ''d/c'')"
    unfolding S by simp
  show ?thesis
    by (intro conjI h1 h2 h3 h4 h5 h6' h7 h8' r1 r2 a b c)
qed

text \<open>
  Claim C2 as stated fails: in a directory of three files of 1 MiB with a ceiling of 1 MB,
  where only \<open>b\<close> cannot be deleted, the pass deletes \<open>a\<close> and stops at \<open>b\<close>. The
  file \<open>c\<close> could be deleted and the directory is still above the low-water mark, yet
  \<open>c\<close> is not deleted.
\<close>

theorem eviction_does_not_continue_counterexample:
  "faults stuckFile (Delete ''d/b'') = Some (Error ''EBUSY'')
   \<and> faults stuckFile (Delete ''d/c'') = None
   \<and> \<not> exists_f (stat (snd (manageCacheSize ''d/'' 1 stuckFile)) ''d/a'')
   \<and> totalSizeMB_of (snd (manageCacheSize ''d/'' 1 stuckFile)) ''d/'' = Inr 2
   \<and> \<not> (2 :: rat) \<le> 1 * (8 / 10)
   \<and> \<not> (2 :: rat) \<le> js_mul 1 (toDouble (8 / 10))
   \<and> exists_f (stat (snd (manageCacheSize ''d/'' 1 stuckFile)) ''d/c'')"
  unfolding lowWaterMark_def[symmetric]
  by (simp add: eval_defs stuckFile_def low_water_1)

subsection \<open>The low-water mark\<close>




subsection \<open>Five files of 30 MiB under a ceiling of 100 MiB\<close>

text \<open>
  Claim C4, as amended. With a ceiling of 100 MiB and a directory of exactly five 30 MiB
  files with pairwise different modification times, one run of \<open>manageCacheSize\<close> in
  which no deletion fails deletes exactly three files, each older than both retained
  ones, and leaves 60 MiB: after two deletions 90 MiB remain, which is still above the
  80 MiB mark, so the loop deletes a third file.
\<close>

theorem five_files_three_evicted:
  assumes sc: "scannable st cacheDir files"
    and five: "length files = 5"
    and del: "\<forall>n \<in> set files. faults st (Delete (cacheDir @ n)) = None"
    and files: "\<forall>n \<in> set files. stat st (cacheDir @ n) = regularFile (30 * 1024 * 1024) (mtime n)"
    and inj: "inj_on mtime (set files)"
    and st': "st' = snd (manageCacheSize cacheDir 100 st)"
  shows "totalSizeMB_of st cacheDir = Inr 150
       \<and> totalSizeMB_of st' cacheDir = Inr 60
       \<and> card {n \<in> set files. \<not> exists_f (stat st' (cacheDir @ n))} = 3
       \<and> (\<forall>a \<in> set files. \<forall>b \<in> set files.
             \<not> exists_f (stat st' (cacheDir @ a)) \<and> exists_f (stat st' (cacheDir @ b)) \<longrightarrow>
             mtime a < mtime b)"
proof -
  let ?E = "map (entryOf st cacheDir) files"
  let ?X = "existingFiles_of ?E"
  define S where "S = sortedFiles_of ?X"
  from sc have ch: "children st cacheDir = Some files" and dist: "distinct files"
    and rd: "faults st (ReadDirectory cacheDir) = None"
    and gi: "\<forall>n \<in> set files. faults st (GetInfo (cacheDir @ n)) = None"
    by (simp_all add: scannable_def)
  have scan: "fileInfos_of st cacheDir = Inr ?E"
    by (rule fileInfos_of_ok[OF ch rd gi])
  have XE: "?X = ?E"
    using files by (simp add: existingFiles_of_def)
  have setS: "set S = entryOf st cacheDir ` set files"
    unfolding S_def set_sortedFiles using files by auto
  have dS: "distinct S" unfolding S_def by (rule distinct_sortedFiles[OF dist])
  have injS: "inj_on path (set S)" unfolding setS by (rule inj_on_path_entries)
  have lenS: "length S = 5"
  proof -
    have "length S = card (set S)" using dS by (simp add: distinct_card)
    also have "\<dots> = card (set files)"
      unfolding setS by (rule card_image) (rule inj_entryOf[THEN inj_on_subset], simp)
    also have "\<dots> = 5" using dist five by (simp add: distinct_card)
    finally show ?thesis .
  qed
  have sizes: "\<forall>f \<in> set S. sizeOr0 f = 30 * 1024 * 1024"
    unfolding setS using files by auto
  have "totalSize_of ?X = 5 * (30 * 1024 * 1024)"
    using files five by (simp add: XE totalSize_of_sum_list comp_def sum_list_triv cong: map_cong)
  then have tot: "(150 :: rat) = of_nat (totalSize_of ?X) / MiB"
    by (simp add: MiB_def)
  have before: "totalSizeMB_of st cacheDir = Inr 150"
    by (simp add: totalSizeMB_of_def scan flip: tot)
  have prefix: "sizeMB (take j S) = 30 * of_nat j" if "j \<le> 5" for j
    using sizeMB_take_const[OF sizes, of j] that lenS by (simp add: MiB_def)
  have over: "(150 :: rat) > 100" by simp
  obtain k where k: "k \<le> length S"
    and res: "snd (manageCacheSize_try cacheDir 100 st) =
                foldl removePath st (map path (take k S))"
    and cont: "\<forall>j < k. \<not> 150 - sizeMB (take j S) \<le> lowWaterMark 100"
    and fin: "case fst (manageCacheSize_try cacheDir 100 st) of
                Inr u \<Rightarrow> k = length S \<or> 150 - sizeMB (take k S) \<le> lowWaterMark 100
              | Inl e \<Rightarrow> k < length S \<and> \<not> 150 - sizeMB (take k S) \<le> lowWaterMark 100
                         \<and> faults st (Delete (path (S ! k))) = Some e"
    using manageCacheSize_try_char[OF sc S_def tot over] by blast
  have st'_eq: "st' = foldl removePath st (map path (take k S))"
    by (simp add: st' snd_manageCacheSize res)
  have k_le: "k \<le> 3"
  proof (rule ccontr)
    assume "\<not> k \<le> 3"
    then have "3 < k" by simp
    with cont have "\<not> 150 - sizeMB (take 3 S) \<le> lowWaterMark 100" by blast
    then show False by (simp add: prefix low_water_100)
  qed
  have k_ge: "3 \<le> k"
  proof (cases "fst (manageCacheSize_try cacheDir 100 st)")
    case (Inl e)
    with fin have "k < length S" and "faults st (Delete (path (S ! k))) = Some e" by simp_all
    moreover from \<open>k < length S\<close> have "S ! k \<in> set S" by simp
    then obtain n where "n \<in> set files" "S ! k = entryOf st cacheDir n"
      unfolding setS by blast
    ultimately show ?thesis using del by simp
  next
    case (Inr u)
    with fin k_le lenS have "150 - sizeMB (take k S) \<le> lowWaterMark 100" by auto
    moreover have "k \<le> 5" using k_le by simp
    ultimately have "150 - 30 * (of_nat k :: rat) \<le> 80" by (simp add: prefix low_water_100)
    then have "(70 :: rat) \<le> of_nat (30 * k)" by simp
    then have "70 \<le> 30 * k" by (metis of_nat_le_iff of_nat_numeral)
    then show ?thesis by simp
  qed
  from k_le k_ge have k3: "k = 3" by simp
  have after: "totalSizeMB_of st' cacheDir = Inr 60"
    using totalSizeMB_after_removal[OF sc S_def, of k] prefix[of 3]
    by (simp add: st'_eq k3 flip: tot)
  have deleted: "{n \<in> set files. \<not> exists_f (stat st' (cacheDir @ n))} = name ` set (take 3 S)"
  proof (intro set_eqI iffI)
    fix n assume "n \<in> {n \<in> set files. \<not> exists_f (stat st' (cacheDir @ n))}"
    then have n: "n \<in> set files" "\<not> exists_f (stat st' (cacheDir @ n))" by simp_all
    then have "entryOf st cacheDir n \<in> set S" by (simp add: setS)
    from stat_after_removal_cases(2)[OF st'_eq dS injS this] n files
    have "entryOf st cacheDir n \<in> set (take 3 S)" by (simp add: k3)
    then show "n \<in> name ` set (take 3 S)" by force
  next
    fix n assume "n \<in> name ` set (take 3 S)"
    then obtain f where f: "f \<in> set (take 3 S)" "n = name f" by blast
    then have "f \<in> set S" using set_take_subset[of 3 S] by blast
    then obtain n' where n': "n' \<in> set files" "f = entryOf st cacheDir n'"
      unfolding setS by blast
    with f have "n = n'" by simp
    have "path f \<in> set (map path (take k S))" using f(1) k3 by simp
    then have "\<not> exists_f (stat st' (path f))"
      by (simp add: st'_eq foldl_removePath_stat notExisting_def)
    with n' \<open>n = n'\<close> show "n \<in> {n \<in> set files. \<not> exists_f (stat st' (cacheDir @ n))}"
      by simp
  qed
  have "card (name ` set (take 3 S)) = card (set (take 3 S))"
  proof (rule card_image, rule inj_onI)
    fix f g assume "f \<in> set (take 3 S)" "g \<in> set (take 3 S)" "name f = name g"
    then have "f \<in> set S" "g \<in> set S" using set_take_subset[of 3 S] by blast+
    with \<open>name f = name g\<close> show "f = g" unfolding setS by auto
  qed
  also have "\<dots> = 3" using dS lenS by (simp add: distinct_card)
  finally have count: "card {n \<in> set files. \<not> exists_f (stat st' (cacheDir @ n))} = 3"
    by (simp add: deleted)
  have order: "mtime a < mtime b"
    if a: "a \<in> set files" "\<not> exists_f (stat st' (cacheDir @ a))"
      and b: "b \<in> set files" "exists_f (stat st' (cacheDir @ b))" for a b
  proof -
    have aS: "entryOf st cacheDir a \<in> set S" and bS: "entryOf st cacheDir b \<in> set S"
      using a(1) b(1) by (simp_all add: setS)
    have "entryOf st cacheDir a \<in> set (take k S)"
      using stat_after_removal_cases(2)[OF st'_eq dS injS aS] a files by simp
    moreover have "entryOf st cacheDir b \<in> set (drop k S)"
      using stat_after_removal_cases(1)[OF st'_eq dS injS bS] b by simp
    moreover have "sorted (map timeOr0 S)" unfolding S_def by (rule sorted_sortedFiles)
    ultimately have "timeOr0 (entryOf st cacheDir a) \<le> timeOr0 (entryOf st cacheDir b)"
      by (blast intro: sorted_take_drop_le)
    then have "mtime a \<le> mtime b" using a(1) b(1) files by simp
    moreover have "a \<noteq> b" using a(2) b(2) by auto
    then have "mtime a \<noteq> mtime b" using inj a(1) b(1) by (auto dest: inj_onD)
    ultimately show ?thesis by simp
  qed
  from before after count order show ?thesis by blast
qed

theorem five_files_three_evicted_witness:
  "scannable fiveFiles ''d/'' [''f3'', ''f1'', ''f5'', ''f2'', ''f4'']
   \<and> length [''f3'', ''f1'', ''f5'', ''f2'', ''f4''] = 5
   \<and> inj_on fiveMtime (set [''f3'', ''f1'', ''f5'', ''f2'', ''f4''])
   \<and> totalSizeMB_of fiveFiles ''d/'' = Inr 150
   \<and> totalSizeMB_of (snd (manageCacheSize ''d/'' 100 fiveFiles)) ''d/'' = Inr 60
   \<and> card {n \<in> set [''f3'', ''f1'', ''f5'', ''f2'', ''f4''].
              \<not> exists_f (stat (snd (manageCacheSize ''d/'' 100 fiveFiles)) (''d/'' @ n))} = 3
   \<and> \<not> exists_f (stat (snd (manageCacheSize ''d/'' 100 fiveFiles)) ''d/f3'')
   \<and> exists_f (stat (snd (manageCacheSize ''d/'' 100 fiveFiles)) ''d/f4'')
   \<and> fiveMtime ''f3'' < fiveMtime ''f4''"
proof -
  let ?st' = "snd (manageCacheSize ''d/'' 100 fiveFiles)"
  have h1: "scannable fiveFiles ''d/'' [''f3'', ''f1'', ''f5'', ''f2'', ''f4'']"
    by (simp add: scannable_def fiveFiles_def)
  have h2: "length [''f3'', ''f1'', ''f5'', ''f2'', ''f4''] = 5" by simp
  have h3: "\<forall>n \<in> set [''f3'', ''f1'', ''f5'', ''f2'', ''f4'']. faults fiveFiles (Delete (''d/'' @ n)) = None"
    by (simp add: fiveFiles_def)
  have h4: "\<forall>n \<in> set [''f3'', ''f1'', ''f5'', ''f2'', ''f4''].
              stat fiveFiles (''d/'' @ n) = regularFile (30 * 1024 * 1024) (fiveMtime n)"
    by (simp add: fiveFiles_def fiveMtime_def)
  have h5: "inj_on fiveMtime (set [''f3'', ''f1'', ''f5'', ''f2'', ''f4''])"
    by (simp add: fiveMtime_def)
  note c = five_files_three_evicted[OF h1 h2 h3 h4 h5 refl]
  note c1 = c[THEN conjunct1] and c2 = c[THEN conjunct2, THEN conjunct1]
    and c3 = c[THEN conjunct2, THEN conjunct2, THEN conjunct1]
    and c4 = c[THEN conjunct2, THEN conjunct2, THEN conjunct2]
  have gone: "\<not> exists_f (stat ?st' ''d/f3'')"
    by (simp add: eval_defs fiveFiles_def low_water_100)
  have kept: "exists_f (stat ?st' ''d/f4'')"
    by (simp add: eval_defs fiveFiles_def low_water_100)
  from c4[rule_format, of "''f3''" "''f4''"] gone kept
  have older: "fiveMtime ''f3'' < fiveMtime ''f4''" by simp
  show ?thesis
    by (intro conjI h1 h2 h5 c1 c2 c3 gone kept older)
qed

text \<open>
  Claim C4 as stated fails: in the scenario's directory (files \<open>f1\<close> to \<open>f5\<close>, oldest
  first) the third-oldest file is deleted too, and 60 MiB are left, not 90 MiB.
\<close>

theorem five_files_counterexample:
  "totalSizeMB_of (snd (manageCacheSize ''d/'' 100 fiveFiles)) ''d/'' = Inr 60
   \<and> totalSizeMB_of (snd (manageCacheSize ''d/'' 100 fiveFiles)) ''d/'' \<noteq> Inr 90
   \<and> \<not> exists_f (stat (snd (manageCacheSize ''d/'' 100 fiveFiles)) ''d/f3'')
   \<and> children (snd (manageCacheSize ''d/'' 100 fiveFiles)) ''d/'' = Some [''f5'', ''f4'']"
  by (simp add: eval_defs fiveFiles_def low_water_100)

section \<open>Claims about key resolution\<close>

text \<open>
  Claim C5. The specification strips the query string first and then looks for an extension
  separator; \<open>getCacheFilename\<close> looks for a \<open>.\<close> in the unstripped final segment. For
  an identifier whose final segment has a \<open>.\<close> only inside its query string the
  code therefore returns the stripped segment, which has no extension, where the claim
  asks for a synthetic name.
\<close>

theorem getCacheFilename_dot_only_in_query:
  "getCacheFilename now ''https://cdn.example/video?v=1.2'' = ''video''
   \<and> resolve_spec now ''https://cdn.example/video?v=1.2'' = ''video_'' @ show_nat now @ ''.mp4''
   \<and> getCacheFilename now ''https://cdn.example/video?v=1.2''
       \<noteq> resolve_spec now ''https://cdn.example/video?v=1.2''"
  by (simp add: getCacheFilename_def resolve_spec_def includes_str_def)

text \<open>
  Claim C6. For an identifier whose final segment carries a \<open>.\<close>, two calls of
  \<open>getCacheFilename\<close> give the same key whatever \<open>Date.now()\<close> returns in each. By
  \<open>includes_stripped_segment\<close> this covers every identifier whose final segment has
  an extension before its query string.
\<close>

theorem getCacheFilename_reproducible:
  assumes "includes_str (last (split_on CHR ''/'' url)) CHR ''.''"
  shows "getCacheFilename now1 url = getCacheFilename now2 url"
  using assms by (simp add: getCacheFilename_def)

theorem getCacheFilename_reproducible_witness:
  "includes_str (last (split_on CHR ''/'' ''https://cdn.example/a/video.mp4?token=7'')) CHR ''.''
   \<and> getCacheFilename 1700000000000 ''https://cdn.example/a/video.mp4?token=7''
       = getCacheFilename 1700000000001 ''https://cdn.example/a/video.mp4?token=7''
   \<and> getCacheFilename 1700000000000 ''https://cdn.example/a/video.mp4?token=7'' = ''video.mp4''"
proof -
  have h: "includes_str (last (split_on CHR ''/'' ''https://cdn.example/a/video.mp4?token=7'')) CHR ''.''"
    by (simp add: includes_str_def)
  have v: "getCacheFilename 1700000000000 ''https://cdn.example/a/video.mp4?token=7'' = ''video.mp4''"
    by (simp add: getCacheFilename_def includes_str_def)
  from getCacheFilename_reproducible[OF h, of 1700000000000 1700000000001] h v
  show ?thesis by blast
qed

section \<open>Claims about the hook\<close>

text \<open>
  Claim C7. For an identifier \<open>I\<close> with caching enabled (globally and for the request),
  if the existence check answers \<open>false\<close>, then \<open>handleVideoSource\<close> sets
  \<open>videoSource.uri\<close> to \<open>I\<close>. The only download it may leave running is one for
  \<open>I\<close>, which it does not await: what the effect returns does not depend on the
  transport, and (for a non-empty \<open>I\<close>) \<open>isLoading\<close> and \<open>isCached\<close> are false.
\<close>

theorem handleVideoSource_serves_remote_on_miss:
  assumes "source_uri source = Some I"
    and "enableCaching opts" and "source_useCaching source \<noteq> Some False"
    and "checkIfCached (cacheDir_of doc opts) now1 st I = Inr False"
  shows "uri (videoSource (fst (handleVideoSource doc opts source now1 now2 h st))) = I
       \<and> set (snd (handleVideoSource doc opts source now1 now2 h st)) \<subseteq> {I}
       \<and> (I \<noteq> [] \<longrightarrow> \<not> isLoading (fst (handleVideoSource doc opts source now1 now2 h st))
                     \<and> \<not> isCached (fst (handleVideoSource doc opts source now1 now2 h st)))
       \<and> (\<forall>tr log. handleVideoSource doc opts source now1 now2 h
                      (st\<lparr>transport := tr, transportLog := log\<rparr>)
                    = handleVideoSource doc opts source now1 now2 h st)"
proof -
  have indep: "checkIfCached d now (st\<lparr>transport := tr, transportLog := log\<rparr>) u
                 = checkIfCached d now st u" for d now tr log u
    by (simp add: checkIfCached_def getInfoAsync_def Let_def split: option.splits)
  show ?thesis
    using assms
    by (simp add: handleVideoSource_def Let_def indep downloadVideo_begin_def)
qed

theorem handleVideoSource_serves_remote_on_miss_witness:
  "enableCaching (DEFAULT_OPTIONS\<lparr>enablePreload := True\<rparr>)
   \<and> checkIfCached (cacheDir_of ''doc/'' (DEFAULT_OPTIONS\<lparr>enablePreload := True\<rparr>)) 1
         (emptyCache workingTransport) ''https://cdn.example/a/video.mp4'' = Inr False
   \<and> uri (videoSource (fst (handleVideoSource ''doc/'' (DEFAULT_OPTIONS\<lparr>enablePreload := True\<rparr>)
         \<lparr>source_uri = Some ''https://cdn.example/a/video.mp4'', source_useCaching = Some True\<rparr> 1 2 initialState
         (emptyCache workingTransport)))) = ''https://cdn.example/a/video.mp4''
   \<and> snd (handleVideoSource ''doc/'' (DEFAULT_OPTIONS\<lparr>enablePreload := True\<rparr>)
         \<lparr>source_uri = Some ''https://cdn.example/a/video.mp4'', source_useCaching = Some True\<rparr> 1 2 initialState
         (emptyCache workingTransport)) = [''https://cdn.example/a/video.mp4'']
   \<and> handleVideoSource ''doc/'' (DEFAULT_OPTIONS\<lparr>enablePreload := True\<rparr>)
         \<lparr>source_uri = Some ''https://cdn.example/a/video.mp4'', source_useCaching = Some True\<rparr> 1 2 initialState
         ((emptyCache workingTransport)\<lparr>transport := failingTransport, transportLog := []\<rparr>)
       = handleVideoSource ''doc/'' (DEFAULT_OPTIONS\<lparr>enablePreload := True\<rparr>)
         \<lparr>source_uri = Some ''https://cdn.example/a/video.mp4'', source_useCaching = Some True\<rparr> 1 2 initialState
         (emptyCache workingTransport)"
proof -
  let ?opts = "DEFAULT_OPTIONS\<lparr>enablePreload := True\<rparr>"
  let ?src = "\<lparr>source_uri = Some ''https://cdn.example/a/video.mp4'', source_useCaching = Some True\<rparr>"
  have h1: "source_uri ?src = Some ''https://cdn.example/a/video.mp4''" by simp
  have h2: "enableCaching ?opts" by (simp add: DEFAULT_OPTIONS_def)
  have h3: "source_useCaching ?src \<noteq> Some False" by simp
  have h4: "checkIfCached (cacheDir_of ''doc/'' ?opts) 1 (emptyCache workingTransport) ''https://cdn.example/a/video.mp4'' = Inr False"
    by (simp add: hook_eval_defs getInfoAsync_def emptyCache_def notExisting_def)
  note c = handleVideoSource_serves_remote_on_miss[OF h1 h2 h3 h4, of 2 initialState]
  have pending: "snd (handleVideoSource ''doc/'' ?opts ?src 1 2 initialState
                   (emptyCache workingTransport)) = [''https://cdn.example/a/video.mp4'']"
    using h4 by (simp add: handleVideoSource_def Let_def DEFAULT_OPTIONS_def)
  show ?thesis
    by (intro conjI h2 h4 pending c[THEN conjunct1]
        c[THEN conjunct2, THEN conjunct2, THEN conjunct2, rule_format])
qed

text \<open>
  Claim C8. The progress callback publishes \<open>Math.round(written / expected * 100)\<close>
  and does not clamp it. When the transport reports an unknown length as
  \<open>totalBytesExpectedToWrite = -1\<close>, the published value is negative, where the claim
  (and the hook's documentation, "Download progress (0-100)") asks for a value in 0..100.
  \<open>onDownloadProgress_in_range\<close> shows that the published value is in range, and is the
  clamped one, whenever \<open>0 \<le> written \<le> expected\<close> and \<open>0 < expected\<close>.
\<close>

theorem onDownloadProgress_unknown_length:
  "cacheProgress (onDownloadProgress (1000, - 1) h) = Fin (- 100000)
   \<and> progress_spec (1000, - 1) = Fin 0
   \<and> cacheProgress (onDownloadProgress (1000, - 1) h) \<noteq> progress_spec (1000, - 1)"
proof -
  have "\<lfloor>- (199999 / 2) :: rat\<rfloor> = - 100000"
    by (rule floor_unique) simp_all
  moreover have "js_div 1000 (- 1) = Fin (- 1000)"
    by (simp add: js_div_def double_eval_defs)
  moreover have "js_mul (- 1000) 100 = - 100000"
    by (simp add: js_mul_def double_eval_defs)
  ultimately show ?thesis
    by (simp add: onDownloadProgress_def progress_spec_def js_times_def Math_round_def)
qed

text \<open>
  Claim C9, as amended. If the pre-flight succeeds, the existence check answers
  \<open>false\<close> and the transport throws \<open>e\<close>, then \<open>downloadVideo\<close> resolves to
  \<open>null\<close>, \<open>error\<close> is the message of \<open>e\<close> (or \<open>Download failed\<close> when
  \<open>e\<close> is not an \<open>Error\<close>), \<open>isLoading\<close> is false, and \<open>videoSource\<close>
  and \<open>isCached\<close> are as before. The code removes nothing: the storage is what the
  transport left, so a later existence check for the same path answers \<open>true\<close>
  exactly when a file is there.
\<close>

theorem downloadVideo_transport_throws:
  assumes ens: "fst (ensureCacheDirectory cacheDir st) = Inr ()"
    and st2: "st2 = snd (manageCacheSize cacheDir maxSize (snd (ensureCacheDirectory cacheDir st)))"
    and fp: "filePath = getCacheFilePath cacheDir now1 url"
    and miss: "checkIfCached cacheDir now2 st2 url = Inr False"
    and throws: "settled (transport st url filePath) = Inl e"
    and res: "downloadVideo cacheDir maxSize now1 now2 url h st = (r, h', st')"
  shows "r = Inr None
       \<and> error h' = Some (case e of Error message \<Rightarrow> message | NonError \<Rightarrow> ''Download failed'')
       \<and> \<not> isLoading h'
       \<and> videoSource h' = videoSource h
       \<and> isCached h' = isCached h
       \<and> (\<forall>q. stat st' q =
               (case written (transport st url filePath) of
                  None \<Rightarrow> stat st2 q
                | Some info \<Rightarrow> if q = filePath then info else stat st2 q))
       \<and> (\<forall>now url'. getCacheFilePath cacheDir now url' = filePath \<and>
               faults st (GetInfo filePath) = None \<longrightarrow>
               checkIfCached cacheDir now st' url' =
                 Inr (case written (transport st url filePath) of
                        None \<Rightarrow> exists_f (stat st2 filePath)
                      | Some info \<Rightarrow> exists_f info))"
proof -
  obtain r1 st1 where e: "ensureCacheDirectory cacheDir st = (r1, st1)"
    by (cases "ensureCacheDirectory cacheDir st")
  with ens have r1: "r1 = Inr ()" by simp
  obtain r2 st2' where m: "manageCacheSize cacheDir maxSize st1 = (r2, st2')"
    by (cases "manageCacheSize cacheDir maxSize st1")
  have r2: "r2 = Inr ()" using fst_manageCacheSize[of cacheDir maxSize st1] m by simp
  have st2_eq: "st2' = st2" using st2 e m by simp
  have static: "transport st2 = transport st" "faults st2 = faults st"
    using preflight_static[OF st2] by simp_all
  obtain ev res' st3 where dl: "downloadAsync st2 url filePath = (ev, res', st3)"
    by (cases "downloadAsync st2 url filePath")
  have res': "res' = Inl e"
    using downloadAsync_simps(2)[of st2 url filePath] dl static throws by simp
  have st3_stat: "stat st3 q =
      (case written (transport st url filePath) of
         None \<Rightarrow> stat st2 q
       | Some info \<Rightarrow> if q = filePath then info else stat st2 q)" for q
    using downloadAsync_simps(3)[of st2 url filePath q] dl static by simp
  have st3_faults: "faults st3 = faults st"
    using downloadAsync_simps(4)[of st2 url filePath] dl static by simp
  have body: "downloadVideo_try cacheDir maxSize now1 now2 url h st =
               (Inl e, foldl (\<lambda>h ev. onDownloadProgress ev h) (downloadVideo_begin h) ev, st3)"
    using e r1 m r2 st2_eq miss dl res' fp
    by (simp add: downloadVideo_try_def Let_def)
  from res have r: "r = Inr None" and st': "st' = st3"
    and h': "h' = downloadVideo_finally (downloadVideo_catch e
                    (foldl (\<lambda>h ev. onDownloadProgress ev h) (downloadVideo_begin h) ev))"
    by (simp_all add: downloadVideo_def body)
  have later: "checkIfCached cacheDir now st' url' =
                 Inr (case written (transport st url filePath) of
                        None \<Rightarrow> exists_f (stat st2 filePath)
                      | Some info \<Rightarrow> exists_f info)"
    if "getCacheFilePath cacheDir now url' = filePath" "faults st (GetInfo filePath) = None"
    for now url'
    using that st3_stat[of filePath]
    by (simp add: checkIfCached_def getInfoAsync_def st' st3_faults split: option.splits)
  show ?thesis
    using r later st3_stat
    by (simp add: h' st' downloadVideo_finally_def downloadVideo_catch_def downloadVideo_begin_def
        foldl_onDownloadProgress)
qed

theorem downloadVideo_transport_throws_witness:
  "fst (ensureCacheDirectory ''doc/videos/'' (emptyCache failingTransport)) = Inr ()
   \<and> checkIfCached ''doc/videos/'' 2
         (snd (manageCacheSize ''doc/videos/'' 500
            (snd (ensureCacheDirectory ''doc/videos/'' (emptyCache failingTransport))))) ''https://cdn.example/a/video.mp4'' = Inr False
   \<and> settled (transport (emptyCache failingTransport) ''https://cdn.example/a/video.mp4'' (getCacheFilePath ''doc/videos/'' 1 ''https://cdn.example/a/video.mp4''))
       = Inl (Error ''Network request failed'')
   \<and> fst (downloadVideo ''doc/videos/'' 500 1 2 ''https://cdn.example/a/video.mp4''
            (initialState\<lparr>videoSource := \<lparr>uri = ''https://cdn.example/a/video.mp4'', useCaching = Some False\<rparr>\<rparr>)
            (emptyCache failingTransport)) = Inr None
   \<and> error (fst (snd (downloadVideo ''doc/videos/'' 500 1 2 ''https://cdn.example/a/video.mp4''
            (initialState\<lparr>videoSource := \<lparr>uri = ''https://cdn.example/a/video.mp4'', useCaching = Some False\<rparr>\<rparr>)
            (emptyCache failingTransport)))) = Some ''Network request failed''
   \<and> \<not> isLoading (fst (snd (downloadVideo ''doc/videos/'' 500 1 2 ''https://cdn.example/a/video.mp4''
            (initialState\<lparr>videoSource := \<lparr>uri = ''https://cdn.example/a/video.mp4'', useCaching = Some False\<rparr>\<rparr>)
            (emptyCache failingTransport))))
   \<and> uri (videoSource (fst (snd (downloadVideo ''doc/videos/'' 500 1 2 ''https://cdn.example/a/video.mp4''
            (initialState\<lparr>videoSource := \<lparr>uri = ''https://cdn.example/a/video.mp4'', useCaching = Some False\<rparr>\<rparr>)
            (emptyCache failingTransport))))) = ''https://cdn.example/a/video.mp4''
   \<and> \<not> isCached (fst (snd (downloadVideo ''doc/videos/'' 500 1 2 ''https://cdn.example/a/video.mp4''
            (initialState\<lparr>videoSource := \<lparr>uri = ''https://cdn.example/a/video.mp4'', useCaching = Some False\<rparr>\<rparr>)
            (emptyCache failingTransport))))
   \<and> written (transport (emptyCache failingTransport) ''https://cdn.example/a/video.mp4'' (getCacheFilePath ''doc/videos/'' 1 ''https://cdn.example/a/video.mp4''))
       = Some (regularFile 1000 7)
   \<and> checkIfCached ''doc/videos/'' 3 (snd (snd (downloadVideo ''doc/videos/'' 500 1 2 ''https://cdn.example/a/video.mp4''
            (initialState\<lparr>videoSource := \<lparr>uri = ''https://cdn.example/a/video.mp4'', useCaching = Some False\<rparr>\<rparr>)
            (emptyCache failingTransport)))) ''https://cdn.example/a/video.mp4'' = Inr True"
proof -
  let ?st = "emptyCache failingTransport"
  let ?h = "initialState\<lparr>videoSource := \<lparr>uri = ''https://cdn.example/a/video.mp4'', useCaching = Some False\<rparr>\<rparr>"
  let ?D = "downloadVideo ''doc/videos/'' 500 1 2 ''https://cdn.example/a/video.mp4'' ?h ?st"
  have h1: "fst (ensureCacheDirectory ''doc/videos/'' ?st) = Inr ()"
    by (simp add: hook_eval_defs getInfoAsync_def emptyCache_def directoryInfo_def)
  have h2: "checkIfCached ''doc/videos/'' 2
         (snd (manageCacheSize ''doc/videos/'' 500 (snd (ensureCacheDirectory ''doc/videos/'' ?st))))
         ''https://cdn.example/a/video.mp4'' = Inr False"
    by (simp add: hook_eval_defs eval_defs emptyCache_def)
  have h3: "settled (transport ?st ''https://cdn.example/a/video.mp4'' (getCacheFilePath ''doc/videos/'' 1 ''https://cdn.example/a/video.mp4''))
              = Inl (Error ''Network request failed'')"
    by (simp add: emptyCache_def failingTransport_def)
  have h4: "?D = (fst ?D, fst (snd ?D), snd (snd ?D))" by simp
  note c = downloadVideo_transport_throws[OF h1 refl refl h2 h3 h4]
  from c[THEN conjunct2, THEN conjunct1]
  have e: "error (fst (snd ?D)) = Some ''Network request failed''" by simp
  from c[THEN conjunct2, THEN conjunct2, THEN conjunct2, THEN conjunct1]
  have v: "uri (videoSource (fst (snd ?D))) = ''https://cdn.example/a/video.mp4''" by simp
  from c[THEN conjunct2, THEN conjunct2, THEN conjunct2, THEN conjunct2, THEN conjunct1]
  have ic: "\<not> isCached (fst (snd ?D))" by (simp add: initialState_def)
  have w: "written (transport ?st ''https://cdn.example/a/video.mp4'' (getCacheFilePath ''doc/videos/'' 1 ''https://cdn.example/a/video.mp4''))
             = Some (regularFile 1000 7)"
    by (simp add: emptyCache_def failingTransport_def)
  have same: "getCacheFilePath ''doc/videos/'' 3 ''https://cdn.example/a/video.mp4'' = getCacheFilePath ''doc/videos/'' 1 ''https://cdn.example/a/video.mp4''"
    by (simp add: getCacheFilePath_def getCacheFilename_def includes_str_def)
  have nofault: "faults ?st (GetInfo (getCacheFilePath ''doc/videos/'' 1 ''https://cdn.example/a/video.mp4'')) = None"
    by (simp add: emptyCache_def)
  from c[THEN conjunct2, THEN conjunct2, THEN conjunct2, THEN conjunct2, THEN conjunct2,
         THEN conjunct2, rule_format, of 3 "''https://cdn.example/a/video.mp4''"] same nofault w
  have later: "checkIfCached ''doc/videos/'' 3 (snd (snd ?D)) ''https://cdn.example/a/video.mp4'' = Inr True"
    by simp
  show ?thesis
    by (intro conjI h1 h2 h3 c[THEN conjunct1] e c[THEN conjunct2, THEN conjunct2, THEN conjunct1]
        v ic w later)
qed

text \<open>
  Claim C9 as stated fails where the transport leaves the bytes it wrote at the
  destination path: the download fails, yet the next existence check for the key answers
  \<open>true\<close> and the main effect then serves the partial file as the cached video.
\<close>

theorem partial_download_counterexample:
  "fst (downloadVideo ''doc/videos/'' 500 1 2 ''https://cdn.example/a/video.mp4'' initialState (emptyCache failingTransport)) = Inr None
   \<and> checkIfCached ''doc/videos/'' 3
        (snd (snd (downloadVideo ''doc/videos/'' 500 1 2 ''https://cdn.example/a/video.mp4'' initialState (emptyCache failingTransport))))
        ''https://cdn.example/a/video.mp4'' = Inr True
   \<and> uri (videoSource (fst (handleVideoSource ''doc/'' DEFAULT_OPTIONS
        \<lparr>source_uri = Some ''https://cdn.example/a/video.mp4'', source_useCaching = None\<rparr> 3 4
        (fst (snd (downloadVideo ''doc/videos/'' 500 1 2 ''https://cdn.example/a/video.mp4'' initialState (emptyCache failingTransport))))
        (snd (snd (downloadVideo ''doc/videos/'' 500 1 2 ''https://cdn.example/a/video.mp4'' initialState (emptyCache failingTransport)))))))
      = ''doc/videos/video.mp4''"
  by (simp add: hook_eval_defs eval_defs emptyCache_def failingTransport_def)

text \<open>
  Claim C10. The promise of \<open>preloadVideo\<close> is never rejected. It resolves to
  \<open>null\<close> when caching is disabled; otherwise to \<open>null\<close> when the \<open>try\<close> block
  of \<open>downloadVideo\<close> throws, and to the path the block returns when it returns
  (\<open>downloadVideo_try_returns\<close>: the cached path, or the \<open>uri\<close> of the finished
  download). Faults of eviction and of the existence check never leave
  \<open>manageCacheSize\<close> and \<open>checkIfCached\<close> (\<open>fst_manageCacheSize\<close>,
  \<open>checkIfCached_Inr\<close>).
\<close>

theorem preloadVideo_always_resolves:
  "(\<exists>r. fst (preloadVideo doc opts now1 now2 url h st) = Inr r)
   \<and> (\<not> enableCaching opts \<longrightarrow> fst (preloadVideo doc opts now1 now2 url h st) = Inr None)
   \<and> (enableCaching opts \<longrightarrow>
        (case fst (downloadVideo_try (cacheDir_of doc opts) (maxCacheSize opts) now1 now2 url h st) of
           Inl e \<Rightarrow> fst (preloadVideo doc opts now1 now2 url h st) = Inr None
         | Inr filePath \<Rightarrow> fst (preloadVideo doc opts now1 now2 url h st) = Inr (Some filePath)))"
  by (auto simp: preloadVideo_def downloadVideo_def split: prod.splits sum.splits)

theorem preloadVideo_always_resolves_witness:
  "(\<exists>r. fst (preloadVideo ''doc/'' DEFAULT_OPTIONS 1 2 ''https://cdn.example/a/video.mp4'' initialState
            (emptyCache failingTransport)) = Inr r)
   \<and> \<not> enableCaching (DEFAULT_OPTIONS\<lparr>enableCaching := False\<rparr>)
   \<and> fst (preloadVideo ''doc/'' (DEFAULT_OPTIONS\<lparr>enableCaching := False\<rparr>) 1 2 ''https://cdn.example/a/video.mp4'' initialState
            (emptyCache workingTransport)) = Inr None
   \<and> enableCaching DEFAULT_OPTIONS
   \<and> fst (downloadVideo_try (cacheDir_of ''doc/'' DEFAULT_OPTIONS) (maxCacheSize DEFAULT_OPTIONS)
            1 2 ''https://cdn.example/a/video.mp4'' initialState (emptyCache failingTransport)) = Inl (Error ''Network request failed'')
   \<and> fst (preloadVideo ''doc/'' DEFAULT_OPTIONS 1 2 ''https://cdn.example/a/video.mp4'' initialState
            (emptyCache failingTransport)) = Inr None
   \<and> fst (downloadVideo_try (cacheDir_of ''doc/'' DEFAULT_OPTIONS) (maxCacheSize DEFAULT_OPTIONS)
            1 2 ''https://cdn.example/a/video.mp4'' initialState (emptyCache workingTransport)) = Inr ''doc/videos/video.mp4''
   \<and> fst (preloadVideo ''doc/'' DEFAULT_OPTIONS 1 2 ''https://cdn.example/a/video.mp4'' initialState
            (emptyCache workingTransport)) = Inr (Some ''doc/videos/video.mp4'')"
proof -
  have caching_off: "\<not> enableCaching (DEFAULT_OPTIONS\<lparr>enableCaching := False\<rparr>)" by simp
  have caching_on: "enableCaching DEFAULT_OPTIONS" by (simp add: DEFAULT_OPTIONS_def)
  have fails: "fst (downloadVideo_try (cacheDir_of ''doc/'' DEFAULT_OPTIONS)
                  (maxCacheSize DEFAULT_OPTIONS) 1 2 ''https://cdn.example/a/video.mp4'' initialState (emptyCache failingTransport))
               = Inl (Error ''Network request failed'')"
    by (simp add: hook_eval_defs eval_defs emptyCache_def failingTransport_def)
  have works: "fst (downloadVideo_try (cacheDir_of ''doc/'' DEFAULT_OPTIONS)
                  (maxCacheSize DEFAULT_OPTIONS) 1 2 ''https://cdn.example/a/video.mp4'' initialState (emptyCache workingTransport))
               = Inr ''doc/videos/video.mp4''"
    by (simp add: hook_eval_defs eval_defs emptyCache_def workingTransport_def)
  note a = preloadVideo_always_resolves[of "''doc/''" DEFAULT_OPTIONS 1 2 "''https://cdn.example/a/video.mp4''" initialState
      "emptyCache failingTransport"]
  note b = preloadVideo_always_resolves[of "''doc/''" "DEFAULT_OPTIONS\<lparr>enableCaching := False\<rparr>"
      1 2 "''https://cdn.example/a/video.mp4''" initialState "emptyCache workingTransport"]
  note c = preloadVideo_always_resolves[of "''doc/''" DEFAULT_OPTIONS 1 2 "''https://cdn.example/a/video.mp4''" initialState
      "emptyCache workingTransport"]
  from a[THEN conjunct2, THEN conjunct2, rule_format, OF caching_on] fails
  have r1: "fst (preloadVideo ''doc/'' DEFAULT_OPTIONS 1 2 ''https://cdn.example/a/video.mp4'' initialState
              (emptyCache failingTransport)) = Inr None"
    by simp
  from c[THEN conjunct2, THEN conjunct2, rule_format, OF caching_on] works
  have r2: "fst (preloadVideo ''doc/'' DEFAULT_OPTIONS 1 2 ''https://cdn.example/a/video.mp4'' initialState
              (emptyCache workingTransport)) = Inr (Some ''doc/videos/video.mp4'')"
    by simp
  show ?thesis
    by (intro conjI a[THEN conjunct1] caching_off b[THEN conjunct2, THEN conjunct1, rule_format, OF caching_off]
        caching_on fails r1 works r2)
qed

section \<open>Claims about concurrent requests\<close>




end
